theory Spec2Isabelle
  imports Complex_Main
begin

section \<open>Documents and the document store\<close>

text \<open>
  A record of the hosting platform is a JSON object, in Python a \<open>dict\<close> keyed by
  strings. \<open>JTime\<close> holds a \<open>datetime\<close> (microseconds since the epoch, the
  resolution of Python's clock), which the store functions add as \<open>collected_at\<close>;
  \<open>JNull\<close> is Python's \<open>None\<close>.
\<close>

datatype json =
    JNull
  | JBool bool
  | JInt int
  | JStr string
  | JTime int
  | JArr "json list"
  | JObj "(string \<times> json) list"

type_synonym doc = "string \<rightharpoonup> json"

type_synonym collection = "doc list"

datatype error =
    KeyError string
  | HTTPError nat
  | ConnectionError
  | JSONDecodeError
  | OverflowError

text \<open>The six collections of \<open>MongoDBManager.db\<close>.\<close>

record database =
  repositories :: collection
  commits :: collection
  contributors :: collection
  pull_requests :: collection
  issues :: collection
  comments :: collection

subsection \<open>What the store keeps of a document\<close>

text \<open>
  The driver encodes the filter and the \<open>$set\<close> document before it sends them. An
  integer must fit 64 bits, at any depth, or the call raises \<open>OverflowError\<close> and
  nothing is written. A \<open>datetime\<close> is kept in whole milliseconds: its microseconds
  are cut off.
\<close>

primrec fits_bson :: "json \<Rightarrow> bool" where
  "fits_bson JNull = True"
| "fits_bson (JBool b) = True"
| "fits_bson (JInt n) = (- (2 ^ 63) \<le> n \<and> n < 2 ^ 63)"
| "fits_bson (JStr s) = True"
| "fits_bson (JTime t) = True"
| "fits_bson (JArr xs) = list_all fits_bson xs"
| "fits_bson (JObj kvs) = list_all (pred_prod (\<lambda>k. True) fits_bson) kvs"

definition millis :: "int \<Rightarrow> int" where
  "millis t = t div 1000 * 1000"

primrec to_bson :: "json \<Rightarrow> json" where
  "to_bson JNull = JNull"
| "to_bson (JBool b) = JBool b"
| "to_bson (JInt n) = JInt n"
| "to_bson (JStr s) = JStr s"
| "to_bson (JTime t) = JTime (millis t)"
| "to_bson (JArr xs) = JArr (map to_bson xs)"
| "to_bson (JObj kvs) = JObj (map (map_prod id to_bson) kvs)"

definition encodable :: "doc \<Rightarrow> bool" where
  "encodable d = (\<forall>v \<in> ran d. fits_bson v)"

definition encode :: "doc \<Rightarrow> doc" where
  "encode d = map_option to_bson \<circ> d"

definition encodable_filter :: "(string \<times> json) list \<Rightarrow> bool" where
  "encodable_filter flt = list_all (pred_prod (\<lambda>k. True) fits_bson) flt"

definition encode_filter :: "(string \<times> json) list \<Rightarrow> (string \<times> json) list" where
  "encode_filter flt = map (map_prod id to_bson) flt"

subsection \<open>The upsert\<close>

text \<open>
  A filter \<open>{field: value}\<close> selects a document whose field equals the value, or is an
  array that has the value among its elements; the value \<open>None\<close> also selects a
  document that has no such field. A filter of several fields selects a document that
  every field selects. The store operations build their filters from \<open>id\<close>,
  \<open>sha\<close>, \<open>login\<close> and \<open>repository_id\<close>, which the platform sends as
  numbers and strings. A value that is an object is compared as a whole; an object whose
  keys begin with a dollar sign, which the store reads as a query, is not modelled, and
  the properties below that depend on the selection take the keys of the records to be
  no objects. A field name is taken as one name, as the platform's are: a name with a
  dot or a leading dollar sign, which the store reads as a path or an operator, and the
  store's own \<open>_id\<close> are not modelled.
\<close>

fun field_matches :: "json \<Rightarrow> json option \<Rightarrow> bool" where
  "field_matches v None = (v = JNull)"
| "field_matches v (Some (JArr xs)) = (v = JArr xs \<or> v \<in> set xs)"
| "field_matches v (Some x) = (x = v)"

definition matches :: "(string \<times> json) list \<Rightarrow> doc \<Rightarrow> bool" where
  "matches flt d = list_all (\<lambda>(k, v). field_matches v (d k)) flt"

text \<open>
  The upsert proper, on an encoded filter and an encoded document: the first document
  that the filter selects receives every field of the document; when the filter selects
  none, a document is inserted that holds the filter's fields and then the fields of the
  document. The generated \<open>_id\<close> of an inserted document is not modelled.
\<close>

fun upsert :: "(string \<times> json) list \<Rightarrow> doc \<Rightarrow> collection \<Rightarrow> collection" where
  "upsert flt upd [] = [map_of flt ++ upd]"
| "upsert flt upd (d # ds) =
     (if matches flt d then (d ++ upd) # ds else d # upsert flt upd ds)"

text \<open>
  \<open>collection.update_one(filter, {'$set': document}, upsert=True)\<close>: encode, then
  upsert.
\<close>

definition update_one ::
  "(string \<times> json) list \<Rightarrow> doc \<Rightarrow> collection \<Rightarrow> error + collection" where
  "update_one flt upd coll =
     (if encodable_filter flt \<and> encodable upd
      then Inr (upsert (encode_filter flt) (encode upd) coll)
      else Inl OverflowError)"

text \<open>Python's truth value of a JSON value (\<open>if issue_id:\<close>).\<close>

fun truthy :: "json \<Rightarrow> bool" where
  "truthy JNull = False"
| "truthy (JBool b) = b"
| "truthy (JInt n) = (n \<noteq> 0)"
| "truthy (JStr s) = (s \<noteq> [])"
| "truthy (JTime t) = True"
| "truthy (JArr xs) = (xs \<noteq> [])"
| "truthy (JObj kvs) = (kvs \<noteq> [])"

subsection \<open>The store operations of \<open>MongoDBManager\<close>\<close>

text \<open>
  \<open>_add_timestamp\<close> reads the clock (\<open>datetime.now(timezone.utc)\<close>). Every store
  operation receives its records paired with the clock reading at the moment its loop
  reaches the record: the list \<open>[(now, record), ...]\<close>.
\<close>

definition add_timestamp :: "int \<Rightarrow> doc \<Rightarrow> doc" where
  "add_timestamp now document = document(''collected_at'' \<mapsto> JTime now)"

text \<open>
  Each loop carries the collection and the list of keys collected so far. A missing
  key (\<open>repo['id']\<close>) raises \<open>KeyError\<close> and a failing \<open>update_one\<close> raises its
  error: the loop stops, the writes already made remain. \<open>str\<close> is Python's conversion
  to a string, a parameter here.
\<close>

fun store_repositories_loop ::
  "(json \<Rightarrow> string) \<Rightarrow> (int \<times> doc) list \<Rightarrow> collection \<Rightarrow> string list
    \<Rightarrow> (error + string list) \<times> collection" where
  "store_repositories_loop str [] coll repo_ids = (Inr repo_ids, coll)"
| "store_repositories_loop str ((now, repo) # rest) coll repo_ids =
     (let repo = add_timestamp now repo in
      case repo ''id'' of
        None \<Rightarrow> (Inl (KeyError ''id''), coll)
      | Some i \<Rightarrow>
          (case update_one [(''id'', i)] repo coll of
             Inl e \<Rightarrow> (Inl e, coll)
           | Inr coll \<Rightarrow> store_repositories_loop str rest coll (repo_ids @ [str i])))"

definition store_repositories ::
  "(json \<Rightarrow> string) \<Rightarrow> (int \<times> doc) list \<Rightarrow> database
    \<Rightarrow> (error + string list) \<times> database" where
  "store_repositories str recs db =
     (if recs = [] then (Inr [], db)
      else case store_repositories_loop str recs (repositories db) [] of
        (res, coll) \<Rightarrow> (res, db\<lparr>repositories := coll\<rparr>))"

fun store_commits_loop ::
  "json \<Rightarrow> (int \<times> doc) list \<Rightarrow> collection \<Rightarrow> json list
    \<Rightarrow> (error + json list) \<times> collection" where
  "store_commits_loop repository_id [] coll commit_ids = (Inr commit_ids, coll)"
| "store_commits_loop repository_id ((now, commit) # rest) coll commit_ids =
     (let commit = add_timestamp now commit;
          commit = commit(''repository_id'' \<mapsto> repository_id) in
      case commit ''sha'' of
        None \<Rightarrow> (Inl (KeyError ''sha''), coll)
      | Some sha \<Rightarrow>
          (case update_one [(''sha'', sha), (''repository_id'', repository_id)] commit coll of
             Inl e \<Rightarrow> (Inl e, coll)
           | Inr coll \<Rightarrow> store_commits_loop repository_id rest coll (commit_ids @ [sha])))"

definition store_commits ::
  "json \<Rightarrow> (int \<times> doc) list \<Rightarrow> database \<Rightarrow> (error + json list) \<times> database" where
  "store_commits repository_id recs db =
     (if recs = [] then (Inr [], db)
      else case store_commits_loop repository_id recs (commits db) [] of
        (res, coll) \<Rightarrow> (res, db\<lparr>commits := coll\<rparr>))"

fun store_contributors_loop ::
  "json \<Rightarrow> (int \<times> doc) list \<Rightarrow> collection \<Rightarrow> json list
    \<Rightarrow> (error + json list) \<times> collection" where
  "store_contributors_loop repository_id [] coll contributor_ids = (Inr contributor_ids, coll)"
| "store_contributors_loop repository_id ((now, contributor) # rest) coll contributor_ids =
     (let contributor = add_timestamp now contributor;
          contributor = contributor(''repository_id'' \<mapsto> repository_id) in
      case contributor ''login'' of
        None \<Rightarrow> (Inl (KeyError ''login''), coll)
      | Some login \<Rightarrow>
          (case update_one [(''login'', login), (''repository_id'', repository_id)]
                  contributor coll of
             Inl e \<Rightarrow> (Inl e, coll)
           | Inr coll \<Rightarrow>
               store_contributors_loop repository_id rest coll (contributor_ids @ [login])))"

definition store_contributors ::
  "json \<Rightarrow> (int \<times> doc) list \<Rightarrow> database \<Rightarrow> (error + json list) \<times> database" where
  "store_contributors repository_id recs db =
     (if recs = [] then (Inr [], db)
      else case store_contributors_loop repository_id recs (contributors db) [] of
        (res, coll) \<Rightarrow> (res, db\<lparr>contributors := coll\<rparr>))"

text \<open>
  A pull request is keyed by \<open>id\<close> and returned by \<open>number\<close>: \<open>pr['number']\<close> is
  read after the write, so a record without it is written before the \<open>KeyError\<close>.
\<close>

fun store_pull_requests_loop ::
  "json \<Rightarrow> (int \<times> doc) list \<Rightarrow> collection \<Rightarrow> json list
    \<Rightarrow> (error + json list) \<times> collection" where
  "store_pull_requests_loop repository_id [] coll pr_ids = (Inr pr_ids, coll)"
| "store_pull_requests_loop repository_id ((now, pr) # rest) coll pr_ids =
     (let pr = add_timestamp now pr;
          pr = pr(''repository_id'' \<mapsto> repository_id) in
      case pr ''id'' of
        None \<Rightarrow> (Inl (KeyError ''id''), coll)
      | Some i \<Rightarrow>
          (case update_one [(''id'', i)] pr coll of
             Inl e \<Rightarrow> (Inl e, coll)
           | Inr coll \<Rightarrow>
               (case pr ''number'' of
                  None \<Rightarrow> (Inl (KeyError ''number''), coll)
                | Some n \<Rightarrow> store_pull_requests_loop repository_id rest coll (pr_ids @ [n]))))"

definition store_pull_requests ::
  "json \<Rightarrow> (int \<times> doc) list \<Rightarrow> database \<Rightarrow> (error + json list) \<times> database" where
  "store_pull_requests repository_id recs db =
     (if recs = [] then (Inr [], db)
      else case store_pull_requests_loop repository_id recs (pull_requests db) [] of
        (res, coll) \<Rightarrow> (res, db\<lparr>pull_requests := coll\<rparr>))"

text \<open>
  \<open>store_issues\<close> skips a record that has the key \<open>pull_request\<close> before it stamps
  or writes it.
\<close>

fun store_issues_loop ::
  "json \<Rightarrow> (int \<times> doc) list \<Rightarrow> collection \<Rightarrow> json list
    \<Rightarrow> (error + json list) \<times> collection" where
  "store_issues_loop repository_id [] coll issue_ids = (Inr issue_ids, coll)"
| "store_issues_loop repository_id ((now, issue) # rest) coll issue_ids =
     (if issue ''pull_request'' \<noteq> None
      then store_issues_loop repository_id rest coll issue_ids
      else
        (let issue = add_timestamp now issue;
             issue = issue(''repository_id'' \<mapsto> repository_id) in
         case issue ''id'' of
           None \<Rightarrow> (Inl (KeyError ''id''), coll)
         | Some i \<Rightarrow>
             (case update_one [(''id'', i)] issue coll of
                Inl e \<Rightarrow> (Inl e, coll)
              | Inr coll \<Rightarrow>
                  (case issue ''number'' of
                     None \<Rightarrow> (Inl (KeyError ''number''), coll)
                   | Some n \<Rightarrow>
                       store_issues_loop repository_id rest coll (issue_ids @ [n])))))"

definition store_issues ::
  "json \<Rightarrow> (int \<times> doc) list \<Rightarrow> database \<Rightarrow> (error + json list) \<times> database" where
  "store_issues repository_id recs db =
     (if recs = [] then (Inr [], db)
      else case store_issues_loop repository_id recs (issues db) [] of
        (res, coll) \<Rightarrow> (res, db\<lparr>issues := coll\<rparr>))"

text \<open>
  \<open>store_comments\<close> has two optional arguments, \<open>issue_id\<close> and
  \<open>pull_request_id\<close>, with default \<open>None\<close> (\<open>JNull\<close>); each is written into the
  comment only when it is truthy.
\<close>

fun store_comments_loop ::
  "json \<Rightarrow> json \<Rightarrow> json \<Rightarrow> (int \<times> doc) list \<Rightarrow> collection \<Rightarrow> json list
    \<Rightarrow> (error + json list) \<times> collection" where
  "store_comments_loop repository_id issue_id pull_request_id [] coll comment_ids =
     (Inr comment_ids, coll)"
| "store_comments_loop repository_id issue_id pull_request_id ((now, comment) # rest)
      coll comment_ids =
     (let comment = add_timestamp now comment;
          comment = comment(''repository_id'' \<mapsto> repository_id);
          comment = (if truthy issue_id then comment(''issue_id'' \<mapsto> issue_id)
                     else comment);
          comment = (if truthy pull_request_id
                     then comment(''pull_request_id'' \<mapsto> pull_request_id)
                     else comment) in
      case comment ''id'' of
        None \<Rightarrow> (Inl (KeyError ''id''), coll)
      | Some i \<Rightarrow>
          (case update_one [(''id'', i)] comment coll of
             Inl e \<Rightarrow> (Inl e, coll)
           | Inr coll \<Rightarrow>
               store_comments_loop repository_id issue_id pull_request_id rest coll
                 (comment_ids @ [i])))"

definition store_comments ::
  "json \<Rightarrow> (int \<times> doc) list \<Rightarrow> json \<Rightarrow> json \<Rightarrow> database
    \<Rightarrow> (error + json list) \<times> database" where
  "store_comments repository_id recs issue_id pull_request_id db =
     (if recs = [] then (Inr [], db)
      else case store_comments_loop repository_id issue_id pull_request_id recs
                  (comments db) [] of
        (res, coll) \<Rightarrow> (res, db\<lparr>comments := coll\<rparr>))"

section \<open>The GitHub API client\<close>

text \<open>
  A request is the endpoint and the query parameters handed to \<open>session.get\<close>. Of a
  response the client reads the status code, the two rate-limit headers (absent, or the
  integer the header denotes) and the JSON body, which for the list endpoints is a list of
  records (\<open>None\<close>: \<open>response.json()\<close> fails to decode the body). The remote API is a
  function from requests to responses; \<open>None\<close> stands for \<open>session.get\<close> raising
  (no response at all).
\<close>

record request =
  req_endpoint :: string
  req_params :: "(string \<times> json) list"

record response =
  status_code :: nat
  ratelimit_remaining :: "int option"
  ratelimit_reset :: "int option"
  body :: "doc list option"

type_synonym api = "request \<Rightarrow> response option"

text \<open>
  The state of \<open>GitHubAPIClient\<close> is its two rate-limit fields. With them travel the
  wall clock (\<open>time.time()\<close>, in seconds) and the trace of what the client has done to
  the outside: the sleeps it took and the requests it sent, oldest first.
\<close>

datatype event = Slept real | Requested request

record client =
  rate_limit_remaining :: int
  rate_limit_reset :: real
  clock :: real
  trace :: "event list"

definition init_client :: "int \<Rightarrow> real \<Rightarrow> client" where
  "init_client requests_per_hour now =
     \<lparr>rate_limit_remaining = requests_per_hour, rate_limit_reset = now + 3600,
      clock = now, trace = []\<rparr>"

text \<open>
  \<open>time.sleep(d)\<close> suspends the caller for \<open>d\<close> seconds. \<open>check_rate_limit\<close> and
  \<open>make_request\<close> are the methods \<open>_check_rate_limit\<close> and \<open>_make_request\<close>.
\<close>

definition sleep :: "real \<Rightarrow> client \<Rightarrow> client" where
  "sleep d s = s\<lparr>clock := clock s + d, trace := trace s @ [Slept d]\<rparr>"

definition check_rate_limit :: "client \<Rightarrow> client" where
  "check_rate_limit s =
     (if rate_limit_remaining s \<le> 1 then
        (let sleep_time = max 0 (rate_limit_reset s - clock s) in
         if sleep_time > 0 then sleep sleep_time s else s)
      else s)"

text \<open>
  \<open>response.raise_for_status()\<close> raises \<open>HTTPError\<close> for the client and server error
  statuses. Python's \<open>int\<close> of a float truncates towards zero.
\<close>

definition raise_for_status :: "nat \<Rightarrow> bool" where
  "raise_for_status status = (400 \<le> status \<and> status < 600)"

definition py_int :: "real \<Rightarrow> int" where
  "py_int x = (if 0 \<le> x then \<lfloor>x\<rfloor> else \<lceil>x\<rceil>)"

definition make_request ::
  "api \<Rightarrow> string \<Rightarrow> (string \<times> json) list \<Rightarrow> client \<Rightarrow> (error + doc list) \<times> client" where
  "make_request server endpoint params s =
     (let s = check_rate_limit s;
          s = s\<lparr>trace := trace s @ [Requested \<lparr>req_endpoint = endpoint, req_params = params\<rparr>]\<rparr> in
      case server \<lparr>req_endpoint = endpoint, req_params = params\<rparr> of
        None \<Rightarrow> (Inl ConnectionError, s)
      | Some response \<Rightarrow>
          (let s = s\<lparr>rate_limit_remaining :=
                      (case ratelimit_remaining response of Some n \<Rightarrow> n | None \<Rightarrow> 0),
                    rate_limit_reset :=
                      (case ratelimit_reset response of
                         Some t \<Rightarrow> real_of_int t
                       | None \<Rightarrow> real_of_int (py_int (clock s + 3600)))\<rparr> in
           if raise_for_status (status_code response)
           then (Inl (HTTPError (status_code response)), s)
           else case body response of
                  None \<Rightarrow> (Inl JSONDecodeError, s)
                | Some data \<Rightarrow> (Inr data, s)))"

subsection \<open>Paginated walks\<close>

text \<open>
  The four walks (\<open>get_repositories\<close>, \<open>get_commits\<close>, \<open>get_pull_requests\<close>,
  \<open>get_issues\<close>) run the same \<open>while True\<close> loop; they differ in the request they
  build for a page, in the page size they compare with, and in \<open>get_commits\<close> catching
  the \<open>HTTPError\<close> with status 409 around the body of the loop. The loop need not end
  (an API that always returns full pages): its result is an option, \<open>None\<close> when it
  runs forever.
\<close>

partial_function (option) page_loop ::
  "api \<Rightarrow> (int \<Rightarrow> request) \<Rightarrow> int \<Rightarrow> bool \<Rightarrow> int \<Rightarrow> doc list \<Rightarrow> client
    \<Rightarrow> ((error + doc list) \<times> client) option" where
  "page_loop server req per_page catch_409 page items s =
     (case make_request server (req_endpoint (req page)) (req_params (req page)) s of
        (Inl e, s) \<Rightarrow>
          if catch_409 \<and> e = HTTPError 409 then Some (Inr items, s) else Some (Inl e, s)
      | (Inr data, s) \<Rightarrow>
          if data = [] then Some (Inr items, s)
          else if int (length data) < per_page then Some (Inr (items @ data), s)
          else page_loop server req per_page catch_409 (page + 1) (items @ data) s)"

definition repositories_request :: "string \<Rightarrow> int \<Rightarrow> int \<Rightarrow> request" where
  "repositories_request owner per_page page =
     \<lparr>req_endpoint = ''/users/'' @ owner @ ''/repos'',
      req_params = [(''per_page'', JInt per_page), (''page'', JInt page),
                (''sort'', JStr ''updated'')]\<rparr>"

definition get_repositories ::
  "api \<Rightarrow> string \<Rightarrow> int \<Rightarrow> client \<Rightarrow> ((error + doc list) \<times> client) option" where
  "get_repositories server owner per_page s =
     page_loop server (repositories_request owner per_page) per_page False 1 [] s"

definition commits_request :: "string \<Rightarrow> string \<Rightarrow> int \<Rightarrow> int \<Rightarrow> request" where
  "commits_request owner repo per_page page =
     \<lparr>req_endpoint = ''/repos/'' @ owner @ ''/'' @ repo @ ''/commits'',
      req_params = [(''per_page'', JInt per_page), (''page'', JInt page)]\<rparr>"

definition get_commits ::
  "api \<Rightarrow> string \<Rightarrow> string \<Rightarrow> int \<Rightarrow> client \<Rightarrow> ((error + doc list) \<times> client) option" where
  "get_commits server owner repo per_page s =
     page_loop server (commits_request owner repo per_page) per_page True 1 [] s"

definition pull_requests_request :: "string \<Rightarrow> string \<Rightarrow> string \<Rightarrow> int \<Rightarrow> request" where
  "pull_requests_request owner repo state page =
     \<lparr>req_endpoint = ''/repos/'' @ owner @ ''/'' @ repo @ ''/pulls'',
      req_params = [(''state'', JStr state), (''per_page'', JInt 100), (''page'', JInt page)]\<rparr>"

definition get_pull_requests ::
  "api \<Rightarrow> string \<Rightarrow> string \<Rightarrow> string \<Rightarrow> client \<Rightarrow> ((error + doc list) \<times> client) option" where
  "get_pull_requests server owner repo state s =
     page_loop server (pull_requests_request owner repo state) 100 False 1 [] s"

definition issues_request :: "string \<Rightarrow> string \<Rightarrow> string \<Rightarrow> int \<Rightarrow> request" where
  "issues_request owner repo state page =
     \<lparr>req_endpoint = ''/repos/'' @ owner @ ''/'' @ repo @ ''/issues'',
      req_params = [(''state'', JStr state), (''per_page'', JInt 100), (''page'', JInt page)]\<rparr>"

definition get_issues ::
  "api \<Rightarrow> string \<Rightarrow> string \<Rightarrow> string \<Rightarrow> client \<Rightarrow> ((error + doc list) \<times> client) option" where
  "get_issues server owner repo state s =
     page_loop server (issues_request owner repo state) 100 False 1 [] s"

text \<open>\<open>get_contributors\<close> is one request; a 404 is an empty list.\<close>

definition get_contributors ::
  "api \<Rightarrow> string \<Rightarrow> string \<Rightarrow> client \<Rightarrow> (error + doc list) \<times> client" where
  "get_contributors server owner repo s =
     (case make_request server (''/repos/'' @ owner @ ''/'' @ repo @ ''/contributors'') [] s of
        (Inl e, s) \<Rightarrow> if e = HTTPError 404 then (Inr [], s) else (Inl e, s)
      | (Inr data, s) \<Rightarrow> (Inr data, s))"

section \<open>Notions used to reason about the store\<close>

text \<open>
  One upsert is described by its encoded filter and its encoded \<open>$set\<close> document.
  A store loop performs a list of such writes, in order. The loops share one shape:
  every record is skipped, fails before its write, or is written and then yields a key
  (or fails after the write). \<open>run_steps\<close> is that shape; each loop above is shown
  equal to it below.
\<close>

type_synonym db_write = "(string \<times> json) list \<times> doc"

definition apply_writes :: "db_write list \<Rightarrow> collection \<Rightarrow> collection" where
  "apply_writes ws c = fold (\<lambda>(f, u). upsert f u) ws c"

text \<open>
  A value is plain when it is neither an array nor an embedded document: \<open>None\<close>, a
  truth value, a number, a string or a date. The platform's \<open>id\<close>, \<open>sha\<close> and
  \<open>login\<close> are plain.
\<close>

fun plain :: "json \<Rightarrow> bool" where
  "plain (JArr xs) = False"
| "plain (JObj kvs) = False"
| "plain v = True"

text \<open>
  A write is keyed by the fields \<open>K\<close> when its filter has exactly these fields, with
  plain values, and the written document holds the filter's values, as every write of the
  store loops does for records with plain keys. A document is keyed by \<open>K\<close> when it has
  a plain value in each of these fields.
\<close>

definition good_write :: "string list \<Rightarrow> db_write \<Rightarrow> bool" where
  "good_write K w =
     (case w of (f, u) \<Rightarrow> map fst f = K \<and> list_all (\<lambda>(k, v). u k = Some v \<and> plain v) f)"

definition keyed :: "string list \<Rightarrow> doc \<Rightarrow> bool" where
  "keyed K d = list_all (\<lambda>k. case d k of None \<Rightarrow> False | Some v \<Rightarrow> plain v) K"

text \<open>
  The writes of a batch that match a document, those that do not, and the fields the
  matching writes leave in it.
\<close>

definition hits :: "doc \<Rightarrow> db_write list \<Rightarrow> db_write list" where
  "hits d ws = filter (\<lambda>(f, u). matches f d) ws"

definition misses :: "doc \<Rightarrow> db_write list \<Rightarrow> db_write list" where
  "misses d ws = filter (\<lambda>(f, u). \<not> matches f d) ws"

definition merged :: "db_write list \<Rightarrow> doc" where
  "merged ws = fold (\<lambda>(f, u) m. m ++ u) ws Map.empty"

text \<open>Content of a document apart from \<open>collected_at\<close>.\<close>

definition strip_collected_at :: "doc \<Rightarrow> doc" where
  "strip_collected_at d = d(''collected_at'' := None)"

definition strip_write :: "db_write \<Rightarrow> db_write" where
  "strip_write w = (case w of (f, u) \<Rightarrow> (f, strip_collected_at u))"

datatype 'k step = Skip | Fail error | Write "(string \<times> json) list" doc "error + 'k"

fun run_steps :: "'k step list \<Rightarrow> collection \<Rightarrow> 'k list \<Rightarrow> (error + 'k list) \<times> collection" where
  "run_steps [] coll keys = (Inr keys, coll)"
| "run_steps (Skip # ss) coll keys = run_steps ss coll keys"
| "run_steps (Fail e # ss) coll keys = (Inl e, coll)"
| "run_steps (Write f u (Inl e) # ss) coll keys = (Inl e, upsert f u coll)"
| "run_steps (Write f u (Inr k) # ss) coll keys = run_steps ss (upsert f u coll) (keys @ [k])"

fun writes_of :: "'k step list \<Rightarrow> db_write list" where
  "writes_of [] = []"
| "writes_of (Skip # ss) = writes_of ss"
| "writes_of (Fail e # ss) = []"
| "writes_of (Write f u (Inl e) # ss) = [(f, u)]"
| "writes_of (Write f u (Inr k) # ss) = (f, u) # writes_of ss"

fun keys_of :: "'k step list \<Rightarrow> 'k list \<Rightarrow> error + 'k list" where
  "keys_of [] keys = Inr keys"
| "keys_of (Skip # ss) keys = keys_of ss keys"
| "keys_of (Fail e # ss) keys = Inl e"
| "keys_of (Write f u (Inl e) # ss) keys = Inl e"
| "keys_of (Write f u (Inr k) # ss) keys = keys_of ss (keys @ [k])"

fun strip_step :: "'k step \<Rightarrow> 'k step" where
  "strip_step (Write f u res) = Write f (strip_collected_at u) res"
| "strip_step s = s"

fun good_step :: "string list \<Rightarrow> 'k step \<Rightarrow> bool" where
  "good_step K (Write f u res) = good_write K (f, u)"
| "good_step K s = True"

text \<open>
  The step of one call of \<open>update_one\<close>: the encoded write, or the failure with
  \<open>OverflowError\<close> before anything is written.
\<close>

definition write_step :: "(string \<times> json) list \<Rightarrow> doc \<Rightarrow> error + 'k \<Rightarrow> 'k step" where
  "write_step flt upd res =
     (if encodable_filter flt \<and> encodable upd
      then Write (encode_filter flt) (encode upd) res
      else Fail OverflowError)"

text \<open>
  The step each store loop takes on one record. An issue that is not skipped is treated as
  \<open>store_pull_requests\<close> treats a pull request: keyed by \<open>id\<close>, returned by \<open>number\<close>.
\<close>

definition repository_step :: "(json \<Rightarrow> string) \<Rightarrow> int \<times> doc \<Rightarrow> string step" where
  "repository_step str r = (case r of (now, repo) \<Rightarrow>
     (let repo = add_timestamp now repo in
      case repo ''id'' of
        None \<Rightarrow> Fail (KeyError ''id'')
      | Some i \<Rightarrow> write_step [(''id'', i)] repo (Inr (str i))))"

definition commit_step :: "json \<Rightarrow> int \<times> doc \<Rightarrow> json step" where
  "commit_step repository_id r = (case r of (now, commit) \<Rightarrow>
     (let commit = add_timestamp now commit;
          commit = commit(''repository_id'' \<mapsto> repository_id) in
      case commit ''sha'' of
        None \<Rightarrow> Fail (KeyError ''sha'')
      | Some sha \<Rightarrow>
          write_step [(''sha'', sha), (''repository_id'', repository_id)] commit (Inr sha)))"

definition contributor_step :: "json \<Rightarrow> int \<times> doc \<Rightarrow> json step" where
  "contributor_step repository_id r = (case r of (now, contributor) \<Rightarrow>
     (let contributor = add_timestamp now contributor;
          contributor = contributor(''repository_id'' \<mapsto> repository_id) in
      case contributor ''login'' of
        None \<Rightarrow> Fail (KeyError ''login'')
      | Some login \<Rightarrow>
          write_step [(''login'', login), (''repository_id'', repository_id)] contributor
            (Inr login)))"

definition pull_request_step :: "json \<Rightarrow> int \<times> doc \<Rightarrow> json step" where
  "pull_request_step repository_id r = (case r of (now, pr) \<Rightarrow>
     (let pr = add_timestamp now pr;
          pr = pr(''repository_id'' \<mapsto> repository_id) in
      case pr ''id'' of
        None \<Rightarrow> Fail (KeyError ''id'')
      | Some i \<Rightarrow>
          write_step [(''id'', i)] pr
            (case pr ''number'' of None \<Rightarrow> Inl (KeyError ''number'') | Some n \<Rightarrow> Inr n)))"

definition issue_step :: "json \<Rightarrow> int \<times> doc \<Rightarrow> json step" where
  "issue_step repository_id r = (case r of (now, issue) \<Rightarrow>
     (if issue ''pull_request'' \<noteq> None then Skip
      else pull_request_step repository_id (now, issue)))"

definition comment_step :: "json \<Rightarrow> json \<Rightarrow> json \<Rightarrow> int \<times> doc \<Rightarrow> json step" where
  "comment_step repository_id issue_id pull_request_id r = (case r of (now, comment) \<Rightarrow>
     (let comment = add_timestamp now comment;
          comment = comment(''repository_id'' \<mapsto> repository_id);
          comment = (if truthy issue_id then comment(''issue_id'' \<mapsto> issue_id)
                     else comment);
          comment = (if truthy pull_request_id
                     then comment(''pull_request_id'' \<mapsto> pull_request_id)
                     else comment) in
      case comment ''id'' of
        None \<Rightarrow> Fail (KeyError ''id'')
      | Some i \<Rightarrow> write_step [(''id'', i)] comment (Inr i)))"

text \<open>The content of the database apart from the \<open>collected_at\<close> stamps.\<close>

definition content :: "database \<Rightarrow> database" where
  "content db =
     \<lparr>repositories = map strip_collected_at (repositories db),
      commits = map strip_collected_at (commits db),
      contributors = map strip_collected_at (contributors db),
      pull_requests = map strip_collected_at (pull_requests db),
      issues = map strip_collected_at (issues db),
      comments = map strip_collected_at (comments db)\<rparr>"

text \<open>A step is untimed when the clock reading only shows in \<open>collected_at\<close>.\<close>

definition untimed :: "(int \<times> doc \<Rightarrow> 'k step) \<Rightarrow> bool" where
  "untimed st = (\<forall>t r. strip_step (st (t, r)) = strip_step (st (0, r)))"

text \<open>
  Calling a store operation on \<open>recs1\<close> and again on \<open>recs2\<close> returns the same
  result and leaves the same content as the first call alone.
\<close>

definition resync_unchanged ::
  "('a \<Rightarrow> database \<Rightarrow> 'r \<times> database) \<Rightarrow> 'a \<Rightarrow> 'a \<Rightarrow> database \<Rightarrow> bool" where
  "resync_unchanged store recs1 recs2 db =
     (case store recs1 db of (res1, db1) \<Rightarrow>
        case store recs2 db1 of (res2, db2) \<Rightarrow>
          res2 = res1 \<and> content db2 = content db1)"

text \<open>
  The field \<open>k\<close> is plain in a list of records when every record that has the field
  has a plain value there.
\<close>

definition plain_at :: "string \<Rightarrow> int \<times> doc \<Rightarrow> bool" where
  "plain_at k p = (case snd p k of None \<Rightarrow> True | Some v \<Rightarrow> plain v)"

definition plain_field :: "string \<Rightarrow> (int \<times> doc) list \<Rightarrow> bool" where
  "plain_field k recs = list_all (plain_at k) recs"

definition empty_db :: database where
  "empty_db = \<lparr>repositories = [], commits = [], contributors = [], pull_requests = [],
     issues = [], comments = []\<rparr>"

text \<open>
  What a store call leaves in a collection, said of the documents that the call inserted
  or changed (those of \<open>after\<close> that are not documents of \<open>before\<close>): they carry the
  field \<open>k\<close> with value \<open>v\<close>, or they lack the field \<open>k\<close>.
\<close>

definition carry :: "string \<Rightarrow> json \<Rightarrow> collection \<Rightarrow> collection \<Rightarrow> bool" where
  "carry k v before after = (\<forall>d \<in> set after. d \<in> set before \<or> d k = Some v)"

definition lacks :: "string \<Rightarrow> collection \<Rightarrow> collection \<Rightarrow> bool" where
  "lacks k before after = (\<forall>d \<in> set after. d \<in> set before \<or> d k = None)"

text \<open>
  The field \<open>k\<close> is fresh for a batch of comments when no payload of the batch has it
  and no stored comment has it that the filter \<open>{'id': comment['id']}\<close> of a record of
  the batch selects. Selection is the store's: a stored comment whose \<open>id\<close> is an array
  holding the record's \<open>id\<close> is selected, and so is one without \<open>id\<close> when the
  record's \<open>id\<close> is \<open>None\<close>.
\<close>

definition fresh :: "string \<Rightarrow> (int \<times> doc) list \<Rightarrow> collection \<Rightarrow> bool" where
  "fresh k recs coll =
     ((\<forall>(now, r) \<in> set recs. r k = None) \<and>
      (\<forall>d \<in> set coll.
         (\<exists>(now, r) \<in> set recs. \<exists>i. r ''id'' = Some i \<and> matches [(''id'', to_bson i)] d) \<longrightarrow>
         d k = None))"




subsection \<open>Sample data for the store\<close>

text \<open>
  Clock readings are in microseconds: 10500 is 10.5 milliseconds after the epoch and
  is kept as 10000. A pull request among the issues, and a true issue.
\<close>

definition sample_issues :: "(int \<times> doc) list" where
  "sample_issues =
     [(10500, [''id'' \<mapsto> JInt 1, ''number'' \<mapsto> JInt 5, ''pull_request'' \<mapsto> JObj []]),
      (11500, [''id'' \<mapsto> JInt 2, ''number'' \<mapsto> JInt 6])]"

text \<open>Two records with one key, read at two pairs of clock readings.\<close>

definition sample_first :: "(int \<times> doc) list" where
  "sample_first =
     [(10500, [''id'' \<mapsto> JInt 1, ''sha'' \<mapsto> JStr ''a'', ''login'' \<mapsto> JStr ''u'',
            ''number'' \<mapsto> JInt 5, ''title'' \<mapsto> JStr ''x'']),
      (11500, [''id'' \<mapsto> JInt 1, ''sha'' \<mapsto> JStr ''a'', ''login'' \<mapsto> JStr ''u'',
            ''number'' \<mapsto> JInt 5, ''title'' \<mapsto> JStr ''y''])]"

definition sample_second :: "(int \<times> doc) list" where
  "sample_second =
     [(20500, [''id'' \<mapsto> JInt 1, ''sha'' \<mapsto> JStr ''a'', ''login'' \<mapsto> JStr ''u'',
            ''number'' \<mapsto> JInt 5, ''title'' \<mapsto> JStr ''x'']),
      (21500, [''id'' \<mapsto> JInt 1, ''sha'' \<mapsto> JStr ''a'', ''login'' \<mapsto> JStr ''u'',
            ''number'' \<mapsto> JInt 5, ''title'' \<mapsto> JStr ''y''])]"

text \<open>Two repositories, the first with an array as \<open>id\<close> that holds the second's.\<close>

definition array_id_records :: "(int \<times> doc) list" where
  "array_id_records =
     [(10500, [''id'' \<mapsto> JArr [JInt 1, JInt 2]]),
      (11500, [''id'' \<mapsto> JInt 1])]"




text \<open>One comment, stored for issue 5 or for pull request 9 of repository 7.\<close>

definition issue_comment :: doc where
  "issue_comment = [''id'' \<mapsto> JInt 1, ''body'' \<mapsto> JStr ''x'']"

definition as_issue_comment :: database where
  "as_issue_comment =
     snd (store_comments (JInt 7) [(10500, issue_comment)] (JInt 5) JNull empty_db)"

definition as_review_comment :: database where
  "as_review_comment =
     snd (store_comments (JInt 7) [(10500, issue_comment)] JNull (JInt 9) empty_db)"

text \<open>Another comment, stored for pull request 9 after the issue comment.\<close>

definition review_comment :: doc where
  "review_comment = [''id'' \<mapsto> JInt 2, ''body'' \<mapsto> JStr ''y'']"

definition both_comments :: database where
  "both_comments =
     snd (store_comments (JInt 7) [(20500, review_comment)] JNull (JInt 9) as_issue_comment)"

text \<open>
  A stored review comment whose \<open>id\<close> is an array holding 1: the filter of
  \<open>issue_comment\<close> selects it.
\<close>

definition array_id_review_comment :: doc where
  "array_id_review_comment =
     [''id'' \<mapsto> JArr [JInt 1, JInt 2], ''pull_request_id'' \<mapsto> JInt 9]"

section \<open>Notions used to reason about the client\<close>

text \<open>The requests of a trace, in the order they were sent.\<close>

fun requests :: "event list \<Rightarrow> request list" where
  "requests [] = []"
| "requests (Slept d # es) = requests es"
| "requests (Requested r # es) = r # requests es"

text \<open>
  The API serves the pages \<open>pages\<close> from page number \<open>page\<close> on: the request for each
  page is answered without an error status, with that page as the body.
\<close>

fun serves :: "api \<Rightarrow> (int \<Rightarrow> request) \<Rightarrow> int \<Rightarrow> doc list list \<Rightarrow> bool" where
  "serves server req page [] = True"
| "serves server req page (p # ps) =
     ((case server (req page) of
         None \<Rightarrow> False
       | Some r \<Rightarrow> \<not> raise_for_status (status_code r) \<and> body r = Some p) \<and>
      serves server req (page + 1) ps)"

text \<open>
  A page is final when it is empty or shorter than the page size, and full otherwise. A
  walk meets full pages and then one final page.
\<close>

definition full_page :: "int \<Rightarrow> doc list \<Rightarrow> bool" where
  "full_page per_page p = (p \<noteq> [] \<and> per_page \<le> int (length p))"

definition final_page :: "int \<Rightarrow> doc list \<Rightarrow> bool" where
  "final_page per_page p = (p = [] \<or> int (length p) < per_page)"

definition walk_pages :: "int \<Rightarrow> doc list list \<Rightarrow> bool" where
  "walk_pages per_page pages =
     (pages \<noteq> [] \<and> list_all (full_page per_page) (butlast pages) \<and>
      final_page per_page (last pages))"

fun page_requests :: "(int \<Rightarrow> request) \<Rightarrow> int \<Rightarrow> nat \<Rightarrow> request list" where
  "page_requests req page 0 = []"
| "page_requests req page (Suc n) = req page # page_requests req (page + 1) n"

text \<open>
  The outcome of a walk over \<open>pages\<close>: it returns, its items are all pages in order,
  and it has sent the requests for the pages 1, 2, ... up to the number of pages and no
  other.
\<close>

definition walked ::
  "((error + doc list) \<times> client) option \<Rightarrow> client \<Rightarrow> (int \<Rightarrow> request) \<Rightarrow> doc list list \<Rightarrow> bool" where
  "walked result s req pages =
     (case result of
        Some (Inr items, s') \<Rightarrow>
          items = concat pages \<and>
          requests (trace s') = requests (trace s) @ map (\<lambda>k. req (int k)) [1..<Suc (length pages)]
      | _ \<Rightarrow> False)"

text \<open>The request \<open>get_contributors\<close> sends.\<close>

definition contributors_request :: "string \<Rightarrow> string \<Rightarrow> request" where
  "contributors_request owner repo =
     \<lparr>req_endpoint = ''/repos/'' @ owner @ ''/'' @ repo @ ''/contributors'', req_params = []\<rparr>"

subsection \<open>Fake sources\<close>

text \<open>
  A fake paginated source answers the request for page \<open>n\<close> with the \<open>n\<close>-th of its
  pages and every later page with the empty list. \<open>fake_source_then\<close> answers the later
  pages with a given status instead, and \<open>multiple_choices_api\<close> answers every request
  with status 300 and two records.
\<close>

definition page_of :: "request \<Rightarrow> int" where
  "page_of r = (case map_of (req_params r) ''page'' of Some (JInt p) \<Rightarrow> p | _ \<Rightarrow> 0)"

definition ok_response :: "doc list \<Rightarrow> response" where
  "ok_response data =
     \<lparr>status_code = 200, ratelimit_remaining = Some 4999, ratelimit_reset = Some 0,
      body = Some data\<rparr>"

definition status_response :: "nat \<Rightarrow> doc list \<Rightarrow> response" where
  "status_response status data =
     \<lparr>status_code = status, ratelimit_remaining = Some 4999, ratelimit_reset = Some 0,
      body = Some data\<rparr>"

definition fake_source :: "doc list list \<Rightarrow> api" where
  "fake_source pages r =
     Some (ok_response
       (if 1 \<le> page_of r \<and> page_of r \<le> int (length pages)
        then pages ! nat (page_of r - 1) else []))"

definition fake_source_then :: "doc list list \<Rightarrow> nat \<Rightarrow> api" where
  "fake_source_then pages status r =
     (if 1 \<le> page_of r \<and> page_of r \<le> int (length pages)
      then Some (ok_response (pages ! nat (page_of r - 1)))
      else Some (status_response status []))"

definition page_of_size :: "nat \<Rightarrow> doc list" where
  "page_of_size n = replicate n [''id'' \<mapsto> JInt 1]"

definition pages_337 :: "doc list list" where
  "pages_337 = [page_of_size 100, page_of_size 100, page_of_size 100, page_of_size 37]"

definition pages_200 :: "doc list list" where
  "pages_200 = [page_of_size 100, page_of_size 100, page_of_size 0]"

definition two_commits :: "doc list" where
  "two_commits = [[''sha'' \<mapsto> JStr ''a''], [''sha'' \<mapsto> JStr ''b'']]"

definition multiple_choices_api :: api where
  "multiple_choices_api r = Some (status_response 300 two_commits)"

section \<open>Lemmas about the store\<close>

lemma apply_writes_simps [simp]:
  "apply_writes [] c = c"
  "apply_writes ((f, u) # ws) c = apply_writes ws (upsert f u c)"
  by (simp_all add: apply_writes_def)

lemma apply_writes_append:
  "apply_writes (xs @ ys) c = apply_writes ys (apply_writes xs c)"
  by (simp add: apply_writes_def)

lemma matches_cong: "(\<And>k. k \<in> fst ` set f \<Longrightarrow> d k = d' k) \<Longrightarrow> matches f d = matches f d'"
  unfolding matches_def list_all_iff by force

lemma field_matches_plain: "plain w \<Longrightarrow> field_matches v (Some w) = (w = v)"
  by (cases w) simp_all

lemma keyedD:
  assumes "keyed K d" "k \<in> set K"
  obtains w where "d k = Some w" "plain w"
  using assms by (auto simp: keyed_def list_all_iff split: option.splits)

lemma good_writeD:
  assumes "good_write K (f, u)" "(k, v) \<in> set f"
  shows "u k = Some v" "plain v" "k \<in> set K"
  using assms by (force simp: good_write_def list_all_iff)+

lemma good_write_key:
  assumes "good_write K (f, u)" "k \<in> set K"
  obtains v where "(k, v) \<in> set f"
  using assms by (force simp: good_write_def)

lemma matches_keyed:
  assumes "good_write K (f, u)" "keyed K d" "matches f d" "(k, v) \<in> set f"
  shows "d k = Some v"
proof -
  from assms(1,4) have "k \<in> set K" by (rule good_writeD)
  with assms(2) obtain w where w: "d k = Some w" "plain w" by (rule keyedD)
  from assms(3,4) have "field_matches v (d k)" by (auto simp: matches_def list_all_iff)
  with w show ?thesis by (simp add: field_matches_plain)
qed

lemma good_write_stable:
  assumes "good_write K (f, u)" "keyed K d" "matches f d" "k \<in> set K"
  shows "(d ++ u) k = d k"
proof -
  from assms(1,4) obtain v where kv: "(k, v) \<in> set f" by (rule good_write_key)
  with assms(1) have "u k = Some v" by (rule good_writeD)
  moreover from assms(1,2,3) kv have "d k = Some v" by (rule matches_keyed)
  ultimately show ?thesis by (simp add: map_add_def)
qed

lemma keyed_write:
  assumes "good_write K (f, u)"
  shows "keyed K (d ++ u)"
  unfolding keyed_def list_all_iff
proof
  fix k assume "k \<in> set K"
  with assms obtain v where kv: "(k, v) \<in> set f" by (rule good_write_key)
  with assms have "u k = Some v" "plain v" by (rule good_writeD)+
  then show "case (d ++ u) k of None \<Rightarrow> False | Some v \<Rightarrow> plain v" by (simp add: map_add_def)
qed

lemma matches_written:
  assumes "good_write K (f, u)"
  shows "matches f (d ++ u)"
  unfolding matches_def list_all_iff
proof (clarify)
  fix k v assume kv: "(k, v) \<in> set f"
  with assms have "u k = Some v" "plain v" by (rule good_writeD)+
  then show "field_matches v ((d ++ u) k)" by (simp add: map_add_def field_matches_plain)
qed

lemma keyed_cong: "(\<And>k. k \<in> set K \<Longrightarrow> d' k = d k) \<Longrightarrow> keyed K d' = keyed K d"
  by (simp add: keyed_def list_all_iff)

lemma fold_merge_shift:
  "fold (\<lambda>(f, u) m. m ++ u) ws (d ++ m) = d ++ fold (\<lambda>(f, u) m. m ++ u) ws m"
proof (induction ws arbitrary: m)
  case Nil
  then show ?case by simp
next
  case (Cons w ws)
  obtain f u where w: "w = (f, u)" by (cases w)
  have "fold (\<lambda>(f, u) m. m ++ u) ws (d ++ (m ++ u)) = d ++ fold (\<lambda>(f, u) m. m ++ u) ws (m ++ u)"
    by (rule Cons.IH)
  then show ?case by (simp add: w)
qed

lemma fold_merge: "fold (\<lambda>(f, u) m. m ++ u) ws d = d ++ merged ws"
  using fold_merge_shift [of ws d Map.empty] by (simp add: merged_def)

lemma merged_Cons: "merged ((f, u) # ws) = u ++ merged ws"
  using fold_merge [of ws u] by (simp add: merged_def)

lemma hits_stable:
  assumes "list_all (good_write K) ws" "\<And>k. k \<in> set K \<Longrightarrow> d' k = d k"
  shows "hits d' ws = hits d ws" "misses d' ws = misses d ws"
proof -
  have "matches f d' = matches f d" if "(f, u) \<in> set ws" for f u
  proof (rule matches_cong)
    fix k assume "k \<in> fst ` set f"
    moreover from that assms(1) have "map fst f = K"
      by (auto simp: list_all_iff good_write_def)
    ultimately have "k \<in> set K" by force
    then show "d' k = d k" by (rule assms(2))
  qed
  then show "hits d' ws = hits d ws" "misses d' ws = misses d ws"
    unfolding hits_def misses_def by (auto intro!: filter_cong)
qed

lemma apply_writes_Cons:
  "list_all (good_write K) ws \<Longrightarrow> keyed K d \<Longrightarrow>
   apply_writes ws (d # ds) = (d ++ merged (hits d ws)) # apply_writes (misses d ws) ds"
proof (induction ws arbitrary: d ds)
  case Nil
  then show ?case by (simp add: hits_def misses_def merged_def)
next
  case (Cons w ws)
  obtain f u where w: "w = (f, u)" by (cases w)
  from Cons.prems w have gw: "good_write K (f, u)" and gws: "list_all (good_write K) ws"
    by simp_all
  show ?case
  proof (cases "matches f d")
    case True
    have st: "hits (d ++ u) ws = hits d ws" "misses (d ++ u) ws = misses d ws"
      using hits_stable [OF gws, of "d ++ u" d] good_write_stable [OF gw Cons.prems(2) True]
      by auto
    from True show ?thesis
      using Cons.IH [OF gws keyed_write [OF gw], of d ds] st
      by (simp add: w hits_def misses_def merged_Cons map_add_assoc)
  next
    case False
    then show ?thesis
      using Cons.IH [OF gws Cons.prems(2), of "upsert f u ds"]
      by (simp add: w hits_def misses_def)
  qed
qed

lemma merged_hits_stable:
  assumes "list_all (good_write K) ws" "keyed K d" "k \<in> set K"
  shows "(d ++ merged (hits d ws)) k = d k"
  using assms(1,2)
proof (induction ws arbitrary: d)
  case Nil
  then show ?case by (simp add: hits_def merged_def)
next
  case (Cons w ws)
  obtain f u where w: "w = (f, u)" by (cases w)
  from Cons.prems w have gw: "good_write K (f, u)" and gws: "list_all (good_write K) ws"
    by simp_all
  show ?case
  proof (cases "matches f d")
    case True
    have st: "hits (d ++ u) ws = hits d ws"
      using hits_stable [OF gws, of "d ++ u" d] good_write_stable [OF gw Cons.prems(2) True]
      by auto
    have "(d ++ merged (hits d (w # ws))) k = ((d ++ u) ++ merged (hits (d ++ u) ws)) k"
      using True st by (simp add: w hits_def merged_Cons map_add_assoc)
    also have "\<dots> = (d ++ u) k" by (rule Cons.IH [OF gws keyed_write [OF gw]])
    also have "\<dots> = d k" using gw Cons.prems(2) True assms(3) by (rule good_write_stable)
    finally show ?thesis .
  next
    case False
    then show ?thesis using Cons.IH [OF gws Cons.prems(2)] by (simp add: w hits_def)
  qed
qed

lemma map_add_absorb: "(a ++ m) ++ m = a ++ (m :: 'a \<rightharpoonup> 'b)"
  by (auto simp: map_add_def fun_eq_iff split: option.splits)

lemma map_add_absorb2: "(a ++ u ++ m) ++ (u ++ m) = a ++ u ++ (m :: 'a \<rightharpoonup> 'b)"
  by (auto simp: map_add_def fun_eq_iff split: option.splits)

lemma list_all_misses: "list_all P ws \<Longrightarrow> list_all P (misses d ws)"
  by (simp add: misses_def list_all_iff)

lemma length_misses: "length (misses d ws) \<le> length ws"
  by (simp add: misses_def)

lemma apply_writes_all_miss:
  "(\<And>f u. (f, u) \<in> set ws \<Longrightarrow> \<not> matches f d) \<Longrightarrow>
   apply_writes ws (d # ds) = d # apply_writes ws ds"
proof (induction ws arbitrary: ds)
  case Nil
  show ?case by simp
next
  case (Cons w ws)
  obtain f u where w: "w = (f, u)" by (cases w)
  have "\<not> matches f d" using Cons.prems [of f u] by (simp add: w)
  moreover have "apply_writes ws (d # upsert f u ds) = d # apply_writes ws (upsert f u ds)"
  proof (rule Cons.IH)
    fix g v assume "(g, v) \<in> set ws"
    then show "\<not> matches g d" using Cons.prems [of g v] by simp
  qed
  ultimately show ?case by (simp add: w)
qed

lemma filter_determined:
  assumes "map fst g = K" "\<And>k x. (k, x) \<in> set g \<Longrightarrow> d k = Some x"
  shows "g = map (\<lambda>k. (k, the (d k))) K"
  using assms
proof (induction g arbitrary: K)
  case Nil
  then show ?case by simp
next
  case (Cons p g)
  obtain k x where p: "p = (k, x)" by (cases p)
  from Cons.prems(1) obtain K' where K: "K = k # K'" "map fst g = K'" by (auto simp: p)
  have "d k = Some x" using Cons.prems(2) [of k x] by (simp add: p)
  moreover have "g = map (\<lambda>k. (k, the (d k))) K'"
  proof (rule Cons.IH [OF K(2)])
    fix k' x' assume "(k', x') \<in> set g"
    then show "d k' = Some x'" using Cons.prems(2) [of k' x'] by simp
  qed
  ultimately show ?case by (simp add: p K(1))
qed

lemma second_pass:
  assumes good: "list_all (good_write K) ws" "good_write K (f, u)"
    and ws: "ws = pre @ (f, u) # post"
    and pre: "\<And>g v. (g, v) \<in> set pre \<Longrightarrow> g \<noteq> f"
    and d1: "d1 = a ++ u" "d' = d1 ++ merged (hits d1 post)"
  shows "hits d' ws = (f, u) # hits d1 post" "misses d' ws = pre @ misses d1 post"
    "d' ++ merged (hits d' ws) = d'" "keyed K d'"
proof -
  from good(1) ws have gpre: "list_all (good_write K) pre" and gpost: "list_all (good_write K) post"
    by simp_all
  have k1: "keyed K d1" unfolding d1 using good(2) by (rule keyed_write)
  have same: "d' k = d1 k" if "k \<in> set K" for k
    unfolding d1(2) using gpost k1 that by (rule merged_hits_stable)
  then show k': "keyed K d'" using k1 keyed_cong [of K d' d1] by simp
  have m1: "matches f d1" unfolding d1 using good(2) by (rule matches_written)
  have "matches f d' = matches f d1"
  proof (rule matches_cong)
    fix k assume "k \<in> fst ` set f"
    with good(2) have "k \<in> set K" by (force simp: good_write_def)
    then show "d' k = d1 k" by (rule same)
  qed
  with m1 have m': "matches f d'" by simp
  have nopre: "\<not> matches g d'" if "(g, v) \<in> set pre" for g v
  proof
    assume mg: "matches g d'"
    from gpre that have gg: "good_write K (g, v)" by (auto simp: list_all_iff)
    from gg have Kg: "map fst g = K" by (simp add: good_write_def)
    from good(2) have Kf: "map fst f = K" by (simp add: good_write_def)
    have "g = map (\<lambda>k. (k, the (d' k))) K"
      using Kg matches_keyed [OF gg k' mg] by (rule filter_determined)
    moreover have "f = map (\<lambda>k. (k, the (d' k))) K"
      using Kf matches_keyed [OF good(2) k' m'] by (rule filter_determined)
    ultimately have "g = f" by simp
    with pre [OF that] show False by simp
  qed
  have hpre: "hits d' pre = []" "misses d' pre = pre"
    using nopre by (auto simp: hits_def misses_def filter_empty_conv filter_id_conv)
  have hpost: "hits d' post = hits d1 post" "misses d' post = misses d1 post"
    using hits_stable [OF gpost, of d' d1] same by auto
  show h: "hits d' ws = (f, u) # hits d1 post"
    using hpre hpost m' by (simp add: ws hits_def)
  show "misses d' ws = pre @ misses d1 post"
    using hpre hpost m' by (simp add: ws misses_def)
  have "d' ++ merged ((f, u) # hits d1 post) = d'"
    unfolding d1 by (simp only: merged_Cons map_add_absorb2)
  then show "d' ++ merged (hits d' ws) = d'" by (simp only: h)
qed

lemma first_pass:
  assumes good: "list_all (good_write K) ws" "good_write K (f, u)"
    and ws: "ws = pre @ (f, u) # post"
    and pre: "\<And>g v. (g, v) \<in> set pre \<Longrightarrow> \<not> matches g d"
    and hit: "matches f d"
  shows "apply_writes ws (d # ds) =
           ((d ++ u) ++ merged (hits (d ++ u) post)) #
           apply_writes (pre @ misses (d ++ u) post) ds"
proof -
  from good(1) ws have gpost: "list_all (good_write K) post" by simp
  have "apply_writes ws (d # ds) = apply_writes ((f, u) # post) (apply_writes pre (d # ds))"
    by (simp only: ws apply_writes_append)
  also have "apply_writes pre (d # ds) = d # apply_writes pre ds"
    using pre by (rule apply_writes_all_miss)
  also have "apply_writes ((f, u) # post) (d # apply_writes pre ds) =
      apply_writes post ((d ++ u) # apply_writes pre ds)"
    using hit by simp
  also have "\<dots> = ((d ++ u) ++ merged (hits (d ++ u) post)) #
      apply_writes (misses (d ++ u) post) (apply_writes pre ds)"
    using gpost keyed_write [OF good(2)] by (rule apply_writes_Cons)
  finally show ?thesis by (simp only: apply_writes_append)
qed

lemma apply_writes_idem:
  "list_all (good_write K) ws \<Longrightarrow> apply_writes ws (apply_writes ws c) = apply_writes ws c"
proof (induction "length ws + length c" arbitrary: ws c rule: less_induct)
  case less
  note good = less.prems
  have step: "apply_writes ws (apply_writes ws (a # ds)) = apply_writes ws (a # ds)"
    if ws: "ws = pre @ (f, u) # post"
      and pre: "\<And>g v. (g, v) \<in> set pre \<Longrightarrow> \<not> matches g a"
      and hit: "matches f a"
      and small: "length (pre @ post) + length ds < length ws + length c"
    for pre f u post a ds
  proof -
    from good ws have gw: "good_write K (f, u)" by simp
    let ?d1 = "a ++ u"
    let ?d' = "?d1 ++ merged (hits ?d1 post)"
    let ?rest = "pre @ misses ?d1 post"
    have first: "apply_writes ws (a # ds) = ?d' # apply_writes ?rest ds"
      using good gw ws pre hit by (rule first_pass)
    have ne: "g \<noteq> f" if "(g, v) \<in> set pre" for g v
      using pre [OF that] hit by auto
    note sp = second_pass [where a=a, OF good gw ws ne refl refl]
    have grest: "list_all (good_write K) ?rest"
      using good ws by (simp add: list_all_misses)
    have "length ?rest \<le> length (pre @ post)" by (simp add: length_misses)
    with small have "length ?rest + length ds < length ws + length c" by simp
    then have ih: "apply_writes ?rest (apply_writes ?rest ds) = apply_writes ?rest ds"
      using grest by (rule less.hyps)
    have "apply_writes ws (?d' # apply_writes ?rest ds) =
        (?d' ++ merged (hits ?d' ws)) # apply_writes (misses ?d' ws) (apply_writes ?rest ds)"
      using good sp(4) by (rule apply_writes_Cons)
    also have "\<dots> = ?d' # apply_writes ?rest ds"
      by (simp only: sp(2) sp(3) ih)
    finally show ?thesis by (simp only: first)
  qed
  show ?case
  proof (cases c)
    case (Cons d ds)
    show ?thesis
    proof (cases "\<exists>w \<in> set ws. matches (fst w) d")
      case False
      then have miss: "\<not> matches f d" if "(f, u) \<in> set ws" for f u
        using that by force
      have ih: "apply_writes ws (apply_writes ws ds) = apply_writes ws ds"
        using good by (intro less.hyps) (simp_all add: Cons)
      have "apply_writes ws (d # ds) = d # apply_writes ws ds"
        using miss by (rule apply_writes_all_miss)
      moreover have "apply_writes ws (d # apply_writes ws ds) =
          d # apply_writes ws (apply_writes ws ds)"
        using miss by (rule apply_writes_all_miss)
      ultimately show ?thesis by (simp add: Cons ih)
    next
      case True
      then obtain pre w post where sp: "ws = pre @ w # post" "matches (fst w) d"
          "\<forall>x \<in> set pre. \<not> matches (fst x) d"
        using split_list_first_prop [of ws "\<lambda>w. matches (fst w) d"] by blast
      obtain f u where w: "w = (f, u)" by (cases w)
      have "apply_writes ws (apply_writes ws (d # ds)) = apply_writes ws (d # ds)"
      proof (rule step)
        show "ws = pre @ (f, u) # post" using sp(1) w by simp
        show "\<not> matches g d" if "(g, v) \<in> set pre" for g v using sp(3) that by force
        show "matches f d" using sp(2) w by simp
        show "length (pre @ post) + length ds < length ws + length c"
          using sp(1) by (simp add: Cons)
      qed
      then show ?thesis by (simp add: Cons)
    qed
  next
    case Nil
    show ?thesis
    proof (cases ws)
      case Nil
      then show ?thesis by simp
    next
      case (Cons w os)
      obtain f u where w: "w = (f, u)" by (cases w)
      from good Cons w have gw: "good_write K (f, u)" by simp
      let ?n = "map_of f ++ u"
      let ?n' = "?n ++ merged (hits ?n os)"
      let ?rest = "misses ?n os"
      from good Cons have gos: "list_all (good_write K) os" by simp
      have first: "apply_writes ws [] = ?n' # apply_writes ?rest []"
        using apply_writes_Cons [OF gos keyed_write [OF gw], of "map_of f" "[]"]
        by (simp add: Cons w)
      have wsplit: "ws = [] @ (f, u) # os" by (simp add: Cons w)
      have ne: "g \<noteq> f" if "(g, v) \<in> set ([] :: db_write list)" for g v
        using that by simp
      note sp = second_pass [where a="map_of f", OF good gw wsplit ne refl refl]
      have grest: "list_all (good_write K) ?rest" using gos by (rule list_all_misses)
      have "length ?rest + length ([] :: collection) < length ws + length c"
        using length_misses [of ?n os] by (simp add: Cons)
      then have ih: "apply_writes ?rest (apply_writes ?rest []) = apply_writes ?rest []"
        using grest by (rule less.hyps)
      have "apply_writes ws (?n' # apply_writes ?rest []) =
          (?n' ++ merged (hits ?n' ws)) # apply_writes (misses ?n' ws) (apply_writes ?rest [])"
        using good sp(4) by (rule apply_writes_Cons) simp
      also have "\<dots> = ?n' # apply_writes ?rest []"
        using sp(2) sp(3) ih by simp
      finally show ?thesis by (simp only: first \<open>c = []\<close>)
    qed
  qed
qed

lemma run_steps_write_step:
  "run_steps (write_step f u res # ss) coll keys =
     (case update_one f u coll of
        Inl e \<Rightarrow> (Inl e, coll)
      | Inr coll' \<Rightarrow>
          (case res of Inl e \<Rightarrow> (Inl e, coll') | Inr k \<Rightarrow> run_steps ss coll' (keys @ [k])))"
  by (cases res) (simp_all add: write_step_def update_one_def)

lemma store_repositories_loop_steps:
  "store_repositories_loop str recs coll keys = run_steps (map (repository_step str) recs) coll keys"
  by (induction recs arbitrary: coll keys)
     (auto simp: repository_step_def Let_def run_steps_write_step split: option.splits sum.splits)

lemma store_commits_loop_steps:
  "store_commits_loop rid recs coll keys = run_steps (map (commit_step rid) recs) coll keys"
  by (induction recs arbitrary: coll keys)
     (auto simp: commit_step_def Let_def run_steps_write_step split: option.splits sum.splits)

lemma store_contributors_loop_steps:
  "store_contributors_loop rid recs coll keys =
     run_steps (map (contributor_step rid) recs) coll keys"
  by (induction recs arbitrary: coll keys)
     (auto simp: contributor_step_def Let_def run_steps_write_step split: option.splits sum.splits)

lemma store_pull_requests_loop_steps:
  "store_pull_requests_loop rid recs coll keys =
     run_steps (map (pull_request_step rid) recs) coll keys"
  by (induction recs arbitrary: coll keys)
     (auto simp: pull_request_step_def Let_def run_steps_write_step
       split: option.splits sum.splits)

lemma store_issues_loop_steps:
  "store_issues_loop rid recs coll keys = run_steps (map (issue_step rid) recs) coll keys"
  by (induction recs arbitrary: coll keys)
     (auto simp: issue_step_def pull_request_step_def Let_def run_steps_write_step
       split: option.splits sum.splits)

lemma store_comments_loop_steps:
  "store_comments_loop rid iid pid recs coll keys =
     run_steps (map (comment_step rid iid pid) recs) coll keys"
  by (induction recs arbitrary: coll keys)
     (auto simp: comment_step_def Let_def run_steps_write_step split: option.splits sum.splits)

lemma run_steps_writes: "snd (run_steps ss coll keys) = apply_writes (writes_of ss) coll"
  by (induction ss coll keys rule: run_steps.induct) simp_all

lemma run_steps_keys: "fst (run_steps ss coll keys) = keys_of ss keys"
  by (induction ss coll keys rule: run_steps.induct) simp_all

lemma keys_of_strip: "keys_of (map strip_step ss) keys = keys_of ss keys"
  by (induction ss keys rule: keys_of.induct) simp_all

lemma writes_of_strip: "writes_of (map strip_step ss) = map strip_write (writes_of ss)"
  by (induction ss rule: writes_of.induct) (simp_all add: strip_write_def)

lemma good_writes_of: "list_all (good_step K) ss \<Longrightarrow> list_all (good_write K) (writes_of ss)"
  by (induction ss rule: writes_of.induct) simp_all

lemma good_write_strip:
  "''collected_at'' \<notin> set K \<Longrightarrow> good_write K w \<Longrightarrow> good_write K (strip_write w)"
  by (cases w) (force simp: good_write_def strip_write_def strip_collected_at_def list_all_iff)

lemma matches_strip:
  "''collected_at'' \<notin> fst ` set f \<Longrightarrow> matches f (strip_collected_at d) = matches f d"
proof (rule matches_cong)
  fix k assume "''collected_at'' \<notin> fst ` set f" "k \<in> fst ` set f"
  then have "k \<noteq> ''collected_at''" by blast
  then show "strip_collected_at d k = d k" by (simp add: strip_collected_at_def)
qed

lemma strip_map_add:
  "strip_collected_at (d ++ u) = strip_collected_at d ++ strip_collected_at u"
  by (auto simp: strip_collected_at_def map_add_def fun_eq_iff split: option.splits)

lemma strip_map_of:
  "''collected_at'' \<notin> fst ` set f \<Longrightarrow> strip_collected_at (map_of f) = map_of f"
proof -
  assume "''collected_at'' \<notin> fst ` set f"
  then have "map_of f ''collected_at'' = None" by (simp add: map_of_eq_None_iff)
  then show ?thesis by (auto simp: strip_collected_at_def fun_eq_iff)
qed

lemma upsert_strip:
  "''collected_at'' \<notin> fst ` set f \<Longrightarrow>
   map strip_collected_at (upsert f u c) =
     upsert f (strip_collected_at u) (map strip_collected_at c)"
  by (induction c) (simp_all add: matches_strip strip_map_add strip_map_of)

lemma apply_writes_strip:
  "''collected_at'' \<notin> set K \<Longrightarrow> list_all (good_write K) ws \<Longrightarrow>
   map strip_collected_at (apply_writes ws c) =
     apply_writes (map strip_write ws) (map strip_collected_at c)"
proof (induction ws arbitrary: c)
  case Nil
  then show ?case by simp
next
  case (Cons w ws)
  obtain f u where w: "w = (f, u)" by (cases w)
  from Cons.prems w have "map fst f = K" by (simp add: good_write_def)
  with Cons.prems(1) have "''collected_at'' \<notin> fst ` set f" by force
  then show ?case using Cons by (simp add: w strip_write_def upsert_strip)
qed

lemma run_steps_idem:
  assumes good: "list_all (good_step K) ss1" "list_all (good_step K) ss2"
    and K: "''collected_at'' \<notin> set K"
    and same: "map strip_step ss2 = map strip_step ss1"
  shows "map strip_collected_at (snd (run_steps ss2 (snd (run_steps ss1 c keys1)) keys2)) =
         map strip_collected_at (snd (run_steps ss1 c keys1))"
proof -
  let ?S = "map strip_write (writes_of ss1)"
  have S2: "map strip_write (writes_of ss2) = ?S"
    using same writes_of_strip [of ss1] writes_of_strip [of ss2] by simp
  have g1: "list_all (good_write K) (writes_of ss1)"
    and g2: "list_all (good_write K) (writes_of ss2)"
    using good by (simp_all add: good_writes_of)
  have gS: "list_all (good_write K) ?S"
    using g1 K by (simp add: list_all_iff good_write_strip)
  have "map strip_collected_at (snd (run_steps ss2 (snd (run_steps ss1 c keys1)) keys2)) =
      apply_writes ?S (apply_writes ?S (map strip_collected_at c))"
    by (simp add: run_steps_writes apply_writes_strip [OF K g2] apply_writes_strip [OF K g1] S2)
  also have "\<dots> = apply_writes ?S (map strip_collected_at c)"
    using gS by (rule apply_writes_idem)
  also have "\<dots> = map strip_collected_at (snd (run_steps ss1 c keys1))"
    by (simp add: run_steps_writes apply_writes_strip [OF K g1])
  finally show ?thesis .
qed

lemma run_steps_same_keys:
  assumes "map strip_step ss2 = map strip_step ss1"
  shows "fst (run_steps ss2 c2 keys) = fst (run_steps ss1 c1 keys)"
  using assms keys_of_strip [of ss1 keys] keys_of_strip [of ss2 keys]
  by (simp add: run_steps_keys)

lemma untimed_map:
  assumes "untimed st" "map snd recs2 = map snd recs1"
  shows "map strip_step (map st recs2) = map strip_step (map st recs1)"
proof -
  have "map strip_step (map st recs) = map (\<lambda>r. strip_step (st (0, r))) (map snd recs)" for recs
  proof (induction recs)
    case Nil
    show ?case by simp
  next
    case (Cons p recs)
    obtain t r where p: "p = (t, r)" by (cases p)
    have "strip_step (st (t, r)) = strip_step (st (0, r))"
      using assms(1) unfolding untimed_def by blast
    with Cons show ?case by (simp add: p)
  qed
  with assms(2) show ?thesis by (simp only:)
qed

lemma encodable_iff: "encodable d \<longleftrightarrow> (\<forall>k v. d k = Some v \<longrightarrow> fits_bson v)"
  by (auto simp: encodable_def ran_def)

lemma write_step_untimed:
  assumes off: "\<And>k. k \<noteq> ''collected_at'' \<Longrightarrow> d k = d' k"
    and at: "d ''collected_at'' = Some (JTime a)" "d' ''collected_at'' = Some (JTime b)"
  shows "strip_step (write_step f d res) = strip_step (write_step f d' res)"
proof -
  have "encodable d = encodable d'"
    unfolding encodable_iff
  proof (intro iffI allI impI)
    fix k v assume all: "\<forall>k v. d k = Some v \<longrightarrow> fits_bson v" and v: "d' k = Some v"
    show "fits_bson v"
    proof (cases "k = ''collected_at''")
      case True
      with v at show ?thesis by auto
    next
      case False
      with off [of k] v all show ?thesis by simp
    qed
  next
    fix k v assume all: "\<forall>k v. d' k = Some v \<longrightarrow> fits_bson v" and v: "d k = Some v"
    show "fits_bson v"
    proof (cases "k = ''collected_at''")
      case True
      with v at show ?thesis by auto
    next
      case False
      with off [of k] v all show ?thesis by simp
    qed
  qed
  moreover have "strip_collected_at (encode d) = strip_collected_at (encode d')"
    using off by (auto simp: strip_collected_at_def encode_def fun_eq_iff)
  ultimately show ?thesis by (simp add: write_step_def)
qed

lemma add_timestamp_other [simp]:
  "k \<noteq> ''collected_at'' \<Longrightarrow> add_timestamp t r k = r k"
  by (simp add: add_timestamp_def)

lemma add_timestamp_at [simp]: "add_timestamp t r ''collected_at'' = Some (JTime t)"
  by (simp add: add_timestamp_def)

lemma untimed_repository_step: "untimed (repository_step str)"
  unfolding untimed_def repository_step_def
  by (auto simp: Let_def split: option.splits intro!: write_step_untimed)

lemma untimed_commit_step: "untimed (commit_step rid)"
  unfolding untimed_def commit_step_def
  by (auto simp: Let_def split: option.splits intro!: write_step_untimed)

lemma untimed_contributor_step: "untimed (contributor_step rid)"
  unfolding untimed_def contributor_step_def
  by (auto simp: Let_def split: option.splits intro!: write_step_untimed)

lemma untimed_pull_request_step: "untimed (pull_request_step rid)"
  unfolding untimed_def pull_request_step_def
  by (auto simp: Let_def split: option.splits intro!: write_step_untimed)

lemma untimed_issue_step: "untimed (issue_step rid)"
  unfolding untimed_def
proof (intro allI)
  fix t r
  have "strip_step (pull_request_step rid (t, r)) = strip_step (pull_request_step rid (0, r))"
    using untimed_pull_request_step [of rid] unfolding untimed_def by blast
  then show "strip_step (issue_step rid (t, r)) = strip_step (issue_step rid (0, r))"
    by (simp add: issue_step_def)
qed

lemma untimed_comment_step: "untimed (comment_step rid iid pid)"
  unfolding untimed_def comment_step_def
  by (auto simp: Let_def split: option.splits intro!: write_step_untimed)

lemma plain_to_bson [simp]: "plain (to_bson v) = plain v"
  by (cases v) simp_all

lemma good_write_encode:
  assumes "good_write K (f, u)"
  shows "good_write K (encode_filter f, encode u)"
  using assms
  by (force simp: good_write_def encode_filter_def encode_def list_all_iff)

lemma good_write_step: "good_write K (f, u) \<Longrightarrow> good_step K (write_step f u res)"
  by (simp add: write_step_def good_write_encode)

lemma plain_field_iff: "plain_field k recs = list_all (plain_at k) recs"
  by (simp add: plain_field_def)

lemma plain_field_same:
  assumes "map snd recs2 = map snd recs1"
  shows "plain_field k recs2 = plain_field k recs1"
proof -
  have "plain_field k recs =
      list_all (\<lambda>r. case r k of None \<Rightarrow> True | Some v \<Rightarrow> plain v) (map snd recs)" for recs
    by (simp add: plain_field_def plain_at_def list_all_iff)
  with assms show ?thesis by simp
qed

lemma good_repository_step:
  assumes "plain_at ''id'' p"
  shows "good_step [''id''] (repository_step str p)"
proof (cases p)
  case (Pair now r)
  show ?thesis
  proof (cases "r ''id''")
    case None
    then show ?thesis by (simp add: Pair repository_step_def Let_def)
  next
    case (Some i)
    with assms Pair have "plain i" by (simp add: plain_at_def)
    with Some have "good_write [''id''] ([(''id'', i)], add_timestamp now r)"
      by (simp add: good_write_def)
    then have "good_step [''id''] (write_step [(''id'', i)] (add_timestamp now r) (Inr (str i)))"
      by (rule good_write_step)
    then show ?thesis by (simp add: Pair repository_step_def Let_def Some)
  qed
qed

lemma good_commit_step:
  assumes "plain rid" "plain_at ''sha'' p"
  shows "good_step [''sha'', ''repository_id''] (commit_step rid p)"
proof (cases p)
  case (Pair now r)
  let ?d = "(add_timestamp now r)(''repository_id'' \<mapsto> rid)"
  show ?thesis
  proof (cases "r ''sha''")
    case None
    then show ?thesis by (simp add: Pair commit_step_def Let_def)
  next
    case (Some i)
    with assms Pair have "plain i" by (simp add: plain_at_def)
    with Some assms(1)
    have "good_write [''sha'', ''repository_id''] ([(''sha'', i), (''repository_id'', rid)], ?d)"
      by (simp add: good_write_def)
    then have "good_step [''sha'', ''repository_id'']
        (write_step [(''sha'', i), (''repository_id'', rid)] ?d (Inr i))"
      by (rule good_write_step)
    then show ?thesis by (simp add: Pair commit_step_def Let_def Some)
  qed
qed

lemma good_contributor_step:
  assumes "plain rid" "plain_at ''login'' p"
  shows "good_step [''login'', ''repository_id''] (contributor_step rid p)"
proof (cases p)
  case (Pair now r)
  let ?d = "(add_timestamp now r)(''repository_id'' \<mapsto> rid)"
  show ?thesis
  proof (cases "r ''login''")
    case None
    then show ?thesis by (simp add: Pair contributor_step_def Let_def)
  next
    case (Some i)
    with assms Pair have "plain i" by (simp add: plain_at_def)
    with Some assms(1)
    have "good_write [''login'', ''repository_id'']
        ([(''login'', i), (''repository_id'', rid)], ?d)"
      by (simp add: good_write_def)
    then have "good_step [''login'', ''repository_id'']
        (write_step [(''login'', i), (''repository_id'', rid)] ?d (Inr i))"
      by (rule good_write_step)
    then show ?thesis by (simp add: Pair contributor_step_def Let_def Some)
  qed
qed

lemma good_pull_request_step:
  assumes "plain_at ''id'' p"
  shows "good_step [''id''] (pull_request_step rid p)"
proof (cases p)
  case (Pair now r)
  let ?d = "(add_timestamp now r)(''repository_id'' \<mapsto> rid)"
  show ?thesis
  proof (cases "r ''id''")
    case None
    then show ?thesis by (simp add: Pair pull_request_step_def Let_def)
  next
    case (Some i)
    with assms Pair have "plain i" by (simp add: plain_at_def)
    with Some have "good_write [''id''] ([(''id'', i)], ?d)"
      by (simp add: good_write_def)
    then have "good_step [''id''] (write_step [(''id'', i)] ?d res)" for res :: "error + json"
      by (rule good_write_step)
    then show ?thesis by (simp add: Pair pull_request_step_def Let_def Some)
  qed
qed

lemma good_issue_step:
  assumes "plain_at ''id'' p"
  shows "good_step [''id''] (issue_step rid p)"
  using good_pull_request_step [OF assms, of rid] by (cases p) (simp add: issue_step_def)

lemma good_comment_step:
  assumes "plain_at ''id'' p"
  shows "good_step [''id''] (comment_step rid iid pid p)"
proof (cases p)
  case (Pair now r)
  define d where "d =
    (let comment = add_timestamp now r;
         comment = comment(''repository_id'' \<mapsto> rid);
         comment = (if truthy iid then comment(''issue_id'' \<mapsto> iid) else comment);
         comment = (if truthy pid then comment(''pull_request_id'' \<mapsto> pid) else comment)
     in comment)"
  have id: "d ''id'' = r ''id''" by (simp add: d_def Let_def)
  have step: "comment_step rid iid pid p =
      (case d ''id'' of None \<Rightarrow> Fail (KeyError ''id'')
       | Some i \<Rightarrow> write_step [(''id'', i)] d (Inr i))"
    by (simp add: Pair comment_step_def d_def Let_def split: option.splits)
  show ?thesis
  proof (cases "r ''id''")
    case None
    then show ?thesis by (simp add: step id)
  next
    case (Some i)
    with assms Pair have "plain i" by (simp add: plain_at_def)
    with Some id have "good_write [''id''] ([(''id'', i)], d)"
      by (simp add: good_write_def)
    then have "good_step [''id''] (write_step [(''id'', i)] d (Inr i))"
      by (rule good_write_step)
    then show ?thesis by (simp add: step id Some)
  qed
qed

lemma steps_idem:
  assumes "untimed st" "\<And>p. plain_at k p \<Longrightarrow> good_step K (st p)" "''collected_at'' \<notin> set K"
    and "map snd recs2 = map snd recs1" and "plain_field k recs1"
  shows "map strip_collected_at
           (snd (run_steps (map st recs2) (snd (run_steps (map st recs1) c keys1)) keys2)) =
         map strip_collected_at (snd (run_steps (map st recs1) c keys1))"
    and "fst (run_steps (map st recs2) c2 keys) = fst (run_steps (map st recs1) c1 keys)"
proof -
  have same: "map strip_step (map st recs2) = map strip_step (map st recs1)"
    using assms(1,4) by (rule untimed_map)
  have p2: "plain_field k recs2" using assms(5) plain_field_same [OF assms(4), of k] by simp
  have g: "list_all (good_step K) (map st recs)" if "plain_field k recs" for recs
  proof -
    from that have "\<forall>p \<in> set recs. plain_at k p"
      by (simp add: plain_field_iff list_all_iff)
    then have "\<forall>p \<in> set recs. good_step K (st p)" using assms(2) by blast
    then show ?thesis by (simp add: list_all_iff)
  qed
  show "map strip_collected_at
           (snd (run_steps (map st recs2) (snd (run_steps (map st recs1) c keys1)) keys2)) =
         map strip_collected_at (snd (run_steps (map st recs1) c keys1))"
    by (rule run_steps_idem [OF g [OF assms(5)] g [OF p2] assms(3) same])
  show "fst (run_steps (map st recs2) c2 keys) = fst (run_steps (map st recs1) c1 keys)"
    using same by (rule run_steps_same_keys)
qed

lemma store_repositories_steps:
  "store_repositories str recs db =
     (fst (run_steps (map (repository_step str) recs) (repositories db) []),
      db\<lparr>repositories := snd (run_steps (map (repository_step str) recs) (repositories db) [])\<rparr>)"
  by (cases "recs = []")
     (simp_all add: store_repositories_def store_repositories_loop_steps split: prod.splits)

lemma content_repositories:
  "content (db\<lparr>repositories := c\<rparr>) = (content db)\<lparr>repositories := map strip_collected_at c\<rparr>"
  by (simp add: content_def)

lemma resync_repositories:
  assumes "map snd recs2 = map snd recs1" "plain_field ''id'' recs1"
  shows "resync_unchanged (store_repositories str) recs1 recs2 db"
  using steps_idem [OF untimed_repository_step good_repository_step _ assms, of str]
  by (simp add: resync_unchanged_def store_repositories_steps content_repositories)

lemma store_commits_steps:
  "store_commits rid recs db =
     (fst (run_steps (map (commit_step rid) recs) (commits db) []),
      db\<lparr>commits := snd (run_steps (map (commit_step rid) recs) (commits db) [])\<rparr>)"
  by (cases "recs = []")
     (simp_all add: store_commits_def store_commits_loop_steps split: prod.splits)

lemma content_commits:
  "content (db\<lparr>commits := c\<rparr>) = (content db)\<lparr>commits := map strip_collected_at c\<rparr>"
  by (simp add: content_def)

lemma resync_commits:
  assumes "map snd recs2 = map snd recs1" "plain_field ''sha'' recs1" "plain rid"
  shows "resync_unchanged (store_commits rid) recs1 recs2 db"
  using steps_idem [OF untimed_commit_step good_commit_step [OF assms(3)] _ assms(1,2)]
  by (simp add: resync_unchanged_def store_commits_steps content_commits)

lemma store_contributors_steps:
  "store_contributors rid recs db =
     (fst (run_steps (map (contributor_step rid) recs) (contributors db) []),
      db\<lparr>contributors := snd (run_steps (map (contributor_step rid) recs) (contributors db) [])\<rparr>)"
  by (cases "recs = []")
     (simp_all add: store_contributors_def store_contributors_loop_steps split: prod.splits)

lemma content_contributors:
  "content (db\<lparr>contributors := c\<rparr>) = (content db)\<lparr>contributors := map strip_collected_at c\<rparr>"
  by (simp add: content_def)

lemma resync_contributors:
  assumes "map snd recs2 = map snd recs1" "plain_field ''login'' recs1" "plain rid"
  shows "resync_unchanged (store_contributors rid) recs1 recs2 db"
  using steps_idem [OF untimed_contributor_step good_contributor_step [OF assms(3)] _
      assms(1,2)]
  by (simp add: resync_unchanged_def store_contributors_steps content_contributors)

lemma store_pull_requests_steps:
  "store_pull_requests rid recs db =
     (fst (run_steps (map (pull_request_step rid) recs) (pull_requests db) []),
      db\<lparr>pull_requests := snd (run_steps (map (pull_request_step rid) recs) (pull_requests db) [])\<rparr>)"
  by (cases "recs = []")
     (simp_all add: store_pull_requests_def store_pull_requests_loop_steps split: prod.splits)

lemma content_pull_requests:
  "content (db\<lparr>pull_requests := c\<rparr>) = (content db)\<lparr>pull_requests := map strip_collected_at c\<rparr>"
  by (simp add: content_def)

lemma resync_pull_requests:
  assumes "map snd recs2 = map snd recs1" "plain_field ''id'' recs1"
  shows "resync_unchanged (store_pull_requests rid) recs1 recs2 db"
  using steps_idem [OF untimed_pull_request_step good_pull_request_step _ assms, of rid]
  by (simp add: resync_unchanged_def store_pull_requests_steps content_pull_requests)

lemma store_issues_steps:
  "store_issues rid recs db =
     (fst (run_steps (map (issue_step rid) recs) (issues db) []),
      db\<lparr>issues := snd (run_steps (map (issue_step rid) recs) (issues db) [])\<rparr>)"
  by (cases "recs = []")
     (simp_all add: store_issues_def store_issues_loop_steps split: prod.splits)

lemma content_issues:
  "content (db\<lparr>issues := c\<rparr>) = (content db)\<lparr>issues := map strip_collected_at c\<rparr>"
  by (simp add: content_def)

lemma resync_issues:
  assumes "map snd recs2 = map snd recs1" "plain_field ''id'' recs1"
  shows "resync_unchanged (store_issues rid) recs1 recs2 db"
  using steps_idem [OF untimed_issue_step good_issue_step _ assms, of rid]
  by (simp add: resync_unchanged_def store_issues_steps content_issues)

lemma store_comments_steps:
  "store_comments rid recs iid pid db =
     (fst (run_steps (map (comment_step rid iid pid) recs) (comments db) []),
      db\<lparr>comments := snd (run_steps (map (comment_step rid iid pid) recs) (comments db) [])\<rparr>)"
  by (cases "recs = []")
     (simp_all add: store_comments_def store_comments_loop_steps split: prod.splits)

lemma content_comments:
  "content (db\<lparr>comments := c\<rparr>) = (content db)\<lparr>comments := map strip_collected_at c\<rparr>"
  by (simp add: content_def)

lemma resync_comments:
  assumes "map snd recs2 = map snd recs1" "plain_field ''id'' recs1"
  shows "resync_unchanged (\<lambda>recs. store_comments rid recs iid pid) recs1 recs2 db"
  using steps_idem [OF untimed_comment_step good_comment_step _ assms, of rid iid pid]
  by (simp add: resync_unchanged_def store_comments_steps content_comments)

lemma store_issues_loop_filter:
  "store_issues_loop rid (filter (\<lambda>(now, issue). issue ''pull_request'' = None) recs) coll acc
     = store_issues_loop rid recs coll acc"
  by (induction recs arbitrary: coll acc) (auto simp: Let_def split: option.splits sum.splits)

lemma store_issues_loop_keys:
  "store_issues_loop rid recs coll acc = (Inr ks, coll') \<Longrightarrow>
   map Some ks = map Some acc @
     map (\<lambda>(now, issue). issue ''number'')
       (filter (\<lambda>(now, issue). issue ''pull_request'' = None) recs)"
  by (induction recs arbitrary: coll acc)
     (auto simp: Let_def add_timestamp_def split: option.splits if_splits sum.splits)

lemma set_upsert:
  "d' \<in> set (upsert f u c) \<Longrightarrow>
   d' \<in> set c \<or> d' = map_of f ++ u \<or> (\<exists>d \<in> set c. matches f d \<and> d' = d ++ u)"
  by (induction c) (auto split: if_splits)

lemma apply_writes_invariant:
  assumes "d' \<in> set (apply_writes ws c)"
    and "\<And>d. d \<in> set c \<Longrightarrow> I d"
    and "\<And>f u d. (f, u) \<in> set ws \<Longrightarrow> I d \<Longrightarrow> matches f d \<Longrightarrow> I (d ++ u)"
    and "\<And>f u. (f, u) \<in> set ws \<Longrightarrow> I (map_of f ++ u)"
  shows "I d'"
  using assms
proof (induction ws arbitrary: c)
  case Nil
  then show ?case by simp
next
  case (Cons w ws)
  obtain f u where w: "w = (f, u)" by (cases w)
  have mem: "d' \<in> set (apply_writes ws (upsert f u c))"
    using Cons.prems(1) by (simp add: w)
  show ?case
  proof (rule Cons.IH [OF mem])
    fix d assume "d \<in> set (upsert f u c)"
    then consider "d \<in> set c" | "d = map_of f ++ u"
      | d0 where "d0 \<in> set c" "matches f d0" "d = d0 ++ u"
      using set_upsert by blast
    then show "I d"
    proof cases
      case 1
      then show ?thesis by (rule Cons.prems(2))
    next
      case 2
      then show ?thesis using Cons.prems(4) [of f u] by (simp add: w)
    next
      case 3
      then show ?thesis using Cons.prems(2) [of d0] Cons.prems(3) [of f u d0] by (simp add: w)
    qed
  next
    fix f' u' d assume "(f', u') \<in> set ws" "I d" "matches f' d"
    then show "I (d ++ u')" using Cons.prems(3) [of f' u' d] by simp
  next
    fix f' u' assume "(f', u') \<in> set ws"
    then show "I (map_of f' ++ u')" using Cons.prems(4) [of f' u'] by simp
  qed
qed



lemma carry_apply_writes:
  assumes "\<And>f u. (f, u) \<in> set ws \<Longrightarrow> u k = Some v"
  shows "carry k v c (apply_writes ws c)"
  unfolding carry_def
proof
  fix d' assume "d' \<in> set (apply_writes ws c)"
  then show "d' \<in> set c \<or> d' k = Some v"
    by (rule apply_writes_invariant) (auto simp: assms map_add_def)
qed


lemma lacks_apply_writes:
  assumes u: "\<And>f u. (f, u) \<in> set ws \<Longrightarrow> u k = None \<and> map_of f k = None"
    and c: "\<And>f u d. (f, u) \<in> set ws \<Longrightarrow> d \<in> set c \<Longrightarrow> matches f d \<Longrightarrow> d k = None"
  shows "lacks k c (apply_writes ws c)"
  unfolding lacks_def
proof
  fix d' assume "d' \<in> set (apply_writes ws c)"
  then show "d' \<in> set c \<or> d' k = None"
  proof (rule apply_writes_invariant)
    fix f u d assume w: "(f, u) \<in> set ws" and d: "d \<in> set c \<or> d k = None" and m: "matches f d"
    from d m c [OF w] have "d k = None" by blast
    with u [OF w] show "d ++ u \<in> set c \<or> (d ++ u) k = None" by (simp add: map_add_def)
  next
    fix f u assume "(f, u) \<in> set ws"
    from u [OF this] show "map_of f ++ u \<in> set c \<or> (map_of f ++ u) k = None"
      by (simp add: map_add_def)
  qed simp
qed

lemma millis_dvd [simp]: "1000 dvd millis t"
  by (simp add: millis_def)


lemma millis_le: "millis t \<le> t"
  unfolding millis_def by (simp add: div_mult_self_is_m)


lemma writes_of_map:
  "(f, u) \<in> set (writes_of (map st recs)) \<Longrightarrow> \<exists>p \<in> set recs. \<exists>res. st p = Write f u res"
proof (induction recs)
  case Nil
  then show ?case by simp
next
  case (Cons p recs)
  show ?case
  proof (cases "st p")
    case Skip
    with Cons show ?thesis by auto
  next
    case (Fail e)
    with Cons show ?thesis by auto
  next
    case (Write f' u' res)
    with Cons show ?thesis by (cases res) auto
  qed
qed

lemma write_step_Write:
  "write_step f d res = Write f' u res' \<Longrightarrow>
   f' = encode_filter f \<and> u = encode d \<and> res' = res"
  by (auto simp: write_step_def split: if_splits)

lemma encode_at: "encode d k = map_option to_bson (d k)"
  by (simp add: encode_def)


lemma commit_step_doc:
  "commit_step rid (now, r) = Write f u res \<Longrightarrow>
   u ''collected_at'' = Some (JTime (millis now)) \<and> u ''repository_id'' = Some (to_bson rid)"
  by (auto simp: commit_step_def Let_def encode_at
      split: option.splits dest!: write_step_Write)

lemma contributor_step_doc:
  "contributor_step rid (now, r) = Write f u res \<Longrightarrow>
   u ''collected_at'' = Some (JTime (millis now)) \<and> u ''repository_id'' = Some (to_bson rid)"
  by (auto simp: contributor_step_def Let_def encode_at
      split: option.splits dest!: write_step_Write)

lemma pull_request_step_doc:
  "pull_request_step rid (now, r) = Write f u res \<Longrightarrow>
   u ''collected_at'' = Some (JTime (millis now)) \<and> u ''repository_id'' = Some (to_bson rid)"
  by (auto simp: pull_request_step_def Let_def encode_at
      split: option.splits dest!: write_step_Write)

lemma issue_step_doc:
  "issue_step rid (now, r) = Write f u res \<Longrightarrow>
   u ''collected_at'' = Some (JTime (millis now)) \<and> u ''repository_id'' = Some (to_bson rid)"
  using pull_request_step_doc [of rid now r f u res]
  by (auto simp: issue_step_def split: if_splits)

lemma comment_step_doc:
  "comment_step rid iid pid (now, r) = Write f u res \<Longrightarrow>
   u ''collected_at'' = Some (JTime (millis now)) \<and> u ''repository_id'' = Some (to_bson rid) \<and>
   (truthy iid \<longrightarrow> u ''issue_id'' = Some (to_bson iid)) \<and>
   (truthy pid \<longrightarrow> u ''pull_request_id'' = Some (to_bson pid)) \<and>
   (\<not> truthy iid \<longrightarrow> u ''issue_id'' = map_option to_bson (r ''issue_id'')) \<and>
   (\<not> truthy pid \<longrightarrow> u ''pull_request_id'' = map_option to_bson (r ''pull_request_id'')) \<and>
   f = [(''id'', to_bson (the (r ''id'')))] \<and> r ''id'' \<noteq> None"
  by (auto simp: comment_step_def Let_def encode_at encode_filter_def
      split: option.splits if_splits dest!: write_step_Write)


lemma commits_after:
  "commits (snd (store_commits rid recs db)) =
     apply_writes (writes_of (map (commit_step rid) recs)) (commits db)"
  by (simp add: store_commits_steps run_steps_writes)

lemma contributors_after:
  "contributors (snd (store_contributors rid recs db)) =
     apply_writes (writes_of (map (contributor_step rid) recs)) (contributors db)"
  by (simp add: store_contributors_steps run_steps_writes)

lemma pull_requests_after:
  "pull_requests (snd (store_pull_requests rid recs db)) =
     apply_writes (writes_of (map (pull_request_step rid) recs)) (pull_requests db)"
  by (simp add: store_pull_requests_steps run_steps_writes)

lemma issues_after:
  "issues (snd (store_issues rid recs db)) =
     apply_writes (writes_of (map (issue_step rid) recs)) (issues db)"
  by (simp add: store_issues_steps run_steps_writes)

lemma comments_after:
  "comments (snd (store_comments rid recs iid pid db)) =
     apply_writes (writes_of (map (comment_step rid iid pid) recs)) (comments db)"
  by (simp add: store_comments_steps run_steps_writes)




lemma carry_writes:
  assumes "\<And>now r f u res. st (now, r) = Write f u res \<Longrightarrow> u k = Some v"
  shows "carry k v c (apply_writes (writes_of (map st recs)) c)"
proof (rule carry_apply_writes)
  fix f u assume "(f, u) \<in> set (writes_of (map st recs))"
  from writes_of_map [OF this] obtain now r res where "st (now, r) = Write f u res" by force
  then show "u k = Some v" by (rule assms)
qed







lemma comment_writes:
  assumes "(f, u) \<in> set (writes_of (map (comment_step rid iid pid) recs))"
  obtains now r res where "(now, r) \<in> set recs"
    "comment_step rid iid pid (now, r) = Write f u res"
proof -
  from writes_of_map [OF assms] obtain p res where
    "p \<in> set recs" "comment_step rid iid pid p = Write f u res" by blast
  then show thesis using that [of "fst p" "snd p" res] by simp
qed

lemma fresh_matched:
  assumes "fresh k recs c" "(now, r) \<in> set recs" "r ''id'' = Some i"
    and "d \<in> set c" "matches [(''id'', to_bson i)] d"
  shows "d k = None"
proof -
  from assms(2,3,5) have
    "\<exists>(now, r) \<in> set recs. \<exists>i. r ''id'' = Some i \<and> matches [(''id'', to_bson i)] d"
    by blast
  with assms(1,4) show ?thesis unfolding fresh_def by blast
qed

lemma lacks_pull_request_id:
  assumes "\<not> truthy pid" "fresh ''pull_request_id'' recs c"
  shows "lacks ''pull_request_id'' c
           (apply_writes (writes_of (map (comment_step rid iid pid) recs)) c)"
proof (rule lacks_apply_writes)
  fix f u assume "(f, u) \<in> set (writes_of (map (comment_step rid iid pid) recs))"
  then obtain now r res where r: "(now, r) \<in> set recs"
    and st: "comment_step rid iid pid (now, r) = Write f u res" by (rule comment_writes)
  from r assms(2) have "r ''pull_request_id'' = None" by (auto simp: fresh_def)
  with comment_step_doc [OF st] assms(1)
  show "u ''pull_request_id'' = None \<and> map_of f ''pull_request_id'' = None" by simp
next
  fix f u d
  assume w: "(f, u) \<in> set (writes_of (map (comment_step rid iid pid) recs))"
    and d: "d \<in> set c" "matches f d"
  from w obtain now r res where r: "(now, r) \<in> set recs"
    and st: "comment_step rid iid pid (now, r) = Write f u res" by (rule comment_writes)
  from comment_step_doc [OF st] obtain i where i: "r ''id'' = Some i"
    and f: "f = [(''id'', to_bson i)]" by auto
  from assms(2) r i d(1) d(2) [unfolded f] show "d ''pull_request_id'' = None"
    by (rule fresh_matched)
qed

lemma lacks_issue_id:
  assumes "\<not> truthy iid" "fresh ''issue_id'' recs c"
  shows "lacks ''issue_id'' c
           (apply_writes (writes_of (map (comment_step rid iid pid) recs)) c)"
proof (rule lacks_apply_writes)
  fix f u assume "(f, u) \<in> set (writes_of (map (comment_step rid iid pid) recs))"
  then obtain now r res where r: "(now, r) \<in> set recs"
    and st: "comment_step rid iid pid (now, r) = Write f u res" by (rule comment_writes)
  from r assms(2) have "r ''issue_id'' = None" by (auto simp: fresh_def)
  with comment_step_doc [OF st] assms(1)
  show "u ''issue_id'' = None \<and> map_of f ''issue_id'' = None" by simp
next
  fix f u d
  assume w: "(f, u) \<in> set (writes_of (map (comment_step rid iid pid) recs))"
    and d: "d \<in> set c" "matches f d"
  from w obtain now r res where r: "(now, r) \<in> set recs"
    and st: "comment_step rid iid pid (now, r) = Write f u res" by (rule comment_writes)
  from comment_step_doc [OF st] obtain i where i: "r ''id'' = Some i"
    and f: "f = [(''id'', to_bson i)]" by auto
  from assms(2) r i d(1) d(2) [unfolded f] show "d ''issue_id'' = None"
    by (rule fresh_matched)
qed

lemma carry_comment_field:
  assumes "\<And>now r f u res. comment_step rid iid pid (now, r) = Write f u res \<Longrightarrow> u k = Some v"
  shows "carry k v c (apply_writes (writes_of (map (comment_step rid iid pid) recs)) c)"
  using assms by (rule carry_writes)

lemma encodable_empty [simp]: "encodable Map.empty"
  by (simp add: encodable_def)

lemma encodable_upd [simp]: "fits_bson v \<Longrightarrow> encodable d \<Longrightarrow> encodable (d(k \<mapsto> v))"
  by (auto simp: encodable_iff)

lemma encode_empty [simp]: "encode Map.empty = Map.empty"
  by (simp add: encode_def)

lemma encode_upd [simp]: "encode (d(k \<mapsto> v)) = (encode d)(k \<mapsto> to_bson v)"
  by (simp add: encode_def fun_eq_iff)

lemma sample_issues_stored:
  "store_issues (JInt 7) sample_issues empty_db
   = (Inr [JInt 6],
      empty_db\<lparr>issues := [[''id'' \<mapsto> JInt 2, ''number'' \<mapsto> JInt 6,
         ''collected_at'' \<mapsto> JTime 11000, ''repository_id'' \<mapsto> JInt 7]]\<rparr>)"
  by (simp add: store_issues_def add_timestamp_def empty_db_def sample_issues_def
      update_one_def encodable_filter_def encode_filter_def millis_def)

lemma sample_commits_once:
  "store_commits (JInt 7) sample_first empty_db =
     (Inr [JStr ''a'', JStr ''a''],
      empty_db\<lparr>commits :=
        [[''id'' \<mapsto> JInt 1, ''sha'' \<mapsto> JStr ''a'', ''login'' \<mapsto> JStr ''u'',
          ''number'' \<mapsto> JInt 5, ''title'' \<mapsto> JStr ''y'',
          ''collected_at'' \<mapsto> JTime 11000, ''repository_id'' \<mapsto> JInt 7]]\<rparr>)"
  by (simp add: store_commits_def sample_first_def empty_db_def add_timestamp_def
      update_one_def encodable_filter_def encode_filter_def millis_def
      matches_def fun_eq_iff)

lemma array_id_once:
  "repositories (snd (store_repositories (\<lambda>v. ''1'') array_id_records empty_db)) =
     [[''id'' \<mapsto> JInt 1, ''collected_at'' \<mapsto> JTime 11000]]"
  by (simp add: store_repositories_def array_id_records_def empty_db_def add_timestamp_def
      update_one_def encodable_filter_def encode_filter_def millis_def
      matches_def fun_eq_iff)

lemma array_id_twice:
  "repositories (snd (store_repositories (\<lambda>v. ''1'') array_id_records
      (snd (store_repositories (\<lambda>v. ''1'') array_id_records empty_db)))) =
     [[''id'' \<mapsto> JInt 1, ''collected_at'' \<mapsto> JTime 11000],
      [''id'' \<mapsto> JArr [JInt 1, JInt 2], ''collected_at'' \<mapsto> JTime 10000]]"
  by (simp add: store_repositories_def array_id_records_def empty_db_def add_timestamp_def
      update_one_def encodable_filter_def encode_filter_def millis_def
      matches_def fun_eq_iff)



lemma as_issue_comment_comments:
  "comments as_issue_comment =
     [[''id'' \<mapsto> JInt 1, ''body'' \<mapsto> JStr ''x'', ''collected_at'' \<mapsto> JTime 10000,
       ''repository_id'' \<mapsto> JInt 7, ''issue_id'' \<mapsto> JInt 5]]"
  by (simp add: as_issue_comment_def store_comments_def issue_comment_def add_timestamp_def
      empty_db_def update_one_def encodable_filter_def encode_filter_def millis_def)

lemma as_review_comment_comments:
  "comments as_review_comment =
     [[''id'' \<mapsto> JInt 1, ''body'' \<mapsto> JStr ''x'', ''collected_at'' \<mapsto> JTime 10000,
       ''repository_id'' \<mapsto> JInt 7, ''pull_request_id'' \<mapsto> JInt 9]]"
  by (simp add: as_review_comment_def store_comments_def issue_comment_def add_timestamp_def
      empty_db_def update_one_def encodable_filter_def encode_filter_def millis_def)

lemma fresh_issue_comment:
  "fresh ''pull_request_id'' [(10500, issue_comment)] (comments empty_db)"
  "fresh ''issue_id'' [(10500, issue_comment)] (comments empty_db)"
  by (simp_all add: fresh_def issue_comment_def empty_db_def)

lemma array_id_not_fresh:
  "\<not> fresh ''pull_request_id'' [(10500, issue_comment)] [array_id_review_comment]"
  by (simp add: fresh_def issue_comment_def array_id_review_comment_def matches_def)

lemma array_id_comment_merged:
  "map (\<lambda>d. (d ''id'', d ''issue_id'', d ''pull_request_id''))
     (comments (snd (store_comments (JInt 7) [(10500, issue_comment)] (JInt 5) JNull
        (empty_db\<lparr>comments := [array_id_review_comment]\<rparr>)))) =
     [(Some (JInt 1), Some (JInt 5), Some (JInt 9))]"
  by (simp add: store_comments_def issue_comment_def array_id_review_comment_def
      add_timestamp_def empty_db_def update_one_def encodable_filter_def encode_filter_def
      millis_def matches_def)

lemma plain_issue_comment: "plain_field ''id'' [(10500, issue_comment)]"
  by (simp add: plain_field_def plain_at_def issue_comment_def)

lemma plain_review_comment: "plain_field ''id'' [(20500, review_comment)]"
  by (simp add: plain_field_def plain_at_def review_comment_def)

lemma fresh_review_comment:
  "fresh ''issue_id'' [(20500, review_comment)] (comments as_issue_comment)"
  by (simp add: fresh_def review_comment_def as_issue_comment_comments matches_def)

lemma both_comments_comments:
  "comments both_comments =
     [[''id'' \<mapsto> JInt 1, ''body'' \<mapsto> JStr ''x'', ''collected_at'' \<mapsto> JTime 10000,
       ''repository_id'' \<mapsto> JInt 7, ''issue_id'' \<mapsto> JInt 5],
      [''id'' \<mapsto> JInt 2, ''body'' \<mapsto> JStr ''y'', ''collected_at'' \<mapsto> JTime 20000,
       ''repository_id'' \<mapsto> JInt 7, ''pull_request_id'' \<mapsto> JInt 9]]"
  by (simp add: both_comments_def as_issue_comment_comments store_comments_def
      review_comment_def add_timestamp_def update_one_def encodable_filter_def
      encode_filter_def millis_def matches_def)

section \<open>Lemmas about the client\<close>

lemma requests_append [simp]: "requests (xs @ ys) = requests xs @ requests ys"
  by (induction xs rule: requests.induct) simp_all

lemma trace_check_rate_limit:
  "trace (check_rate_limit s) = trace s @
     (if rate_limit_remaining s \<le> 1 \<and> clock s < rate_limit_reset s
      then [Slept (max 0 (rate_limit_reset s - clock s))] else [])"
  by (simp add: check_rate_limit_def sleep_def Let_def max_def)

lemma requests_check_rate_limit [simp]: "requests (trace (check_rate_limit s)) = requests (trace s)"
  by (simp add: trace_check_rate_limit)

lemma request_eta [simp]: "\<lparr>req_endpoint = req_endpoint r, req_params = req_params r\<rparr> = (r :: request)"
  by simp

lemma make_request_ok:
  assumes "server r = Some resp" "\<not> raise_for_status (status_code resp)" "body resp = Some data"
  shows "\<exists>s'. make_request server (req_endpoint r) (req_params r) s = (Inr data, s') \<and>
           requests (trace s') = requests (trace s) @ [r]"
  using assms by (simp add: make_request_def Let_def)

lemma make_request_http_error:
  assumes "server r = Some resp" "raise_for_status (status_code resp)"
  shows "\<exists>s'. make_request server (req_endpoint r) (req_params r) s =
             (Inl (HTTPError (status_code resp)), s') \<and>
           requests (trace s') = requests (trace s) @ [r]"
  using assms by (simp add: make_request_def Let_def)

lemma page_requests_map:
  "page_requests req page n = map (\<lambda>k. req (page + int k)) [0..<n]"
proof (induction n arbitrary: page)
  case 0
  show ?case by simp
next
  case (Suc n)
  have "[0..<Suc n] = 0 # map Suc [0..<n]"
    by (simp add: upt_conv_Cons map_Suc_upt del: upt_Suc)
  then show ?case by (simp add: Suc.IH comp_def add.assoc del: upt_Suc)
qed

lemma page_requests_from_1:
  "page_requests req 1 n = map (\<lambda>k. req (int k)) [1..<Suc n]"
proof -
  have "[1..<Suc n] = map Suc [0..<n]" by (simp add: map_Suc_upt del: upt_Suc)
  then show ?thesis by (simp add: page_requests_map comp_def add.commute del: upt_Suc)
qed

lemma page_loop_full:
  assumes "server (req page) = Some resp" "\<not> raise_for_status (status_code resp)"
    "body resp = Some p" "full_page per_page p"
  shows "\<exists>s'. page_loop server req per_page c page items s =
            page_loop server req per_page c (page + 1) (items @ p) s' \<and>
          requests (trace s') = requests (trace s) @ [req page]"
proof -
  from make_request_ok [of server "req page" resp p s, OF assms(1-3)] obtain s' where
    s': "make_request server (req_endpoint (req page)) (req_params (req page)) s = (Inr p, s')"
      "requests (trace s') = requests (trace s) @ [req page]" by blast
  from assms(4) have "p \<noteq> []" "\<not> int (length p) < per_page" by (auto simp: full_page_def)
  with s' show ?thesis by (subst page_loop.simps) auto
qed

lemma page_loop_final:
  assumes "server (req page) = Some resp" "\<not> raise_for_status (status_code resp)"
    "body resp = Some p" "final_page per_page p"
  shows "\<exists>s'. page_loop server req per_page c page items s = Some (Inr (items @ p), s') \<and>
          requests (trace s') = requests (trace s) @ [req page]"
proof -
  from make_request_ok [of server "req page" resp p s, OF assms(1-3)] obtain s' where
    s': "make_request server (req_endpoint (req page)) (req_params (req page)) s = (Inr p, s')"
      "requests (trace s') = requests (trace s) @ [req page]" by blast
  from assms(4) s' show ?thesis
    by (subst page_loop.simps) (auto simp: final_page_def)
qed

lemma page_loop_http_error:
  assumes "server (req page) = Some resp" "raise_for_status (status_code resp)"
  shows "\<exists>s'. page_loop server req per_page c page items s =
            (if c \<and> status_code resp = 409 then Some (Inr items, s')
             else Some (Inl (HTTPError (status_code resp)), s')) \<and>
          requests (trace s') = requests (trace s) @ [req page]"
proof -
  from make_request_http_error [of server "req page" resp s, OF assms] obtain s' where
    s': "make_request server (req_endpoint (req page)) (req_params (req page)) s =
           (Inl (HTTPError (status_code resp)), s')"
      "requests (trace s') = requests (trace s) @ [req page]" by blast
  then show ?thesis by (subst page_loop.simps) auto
qed

lemma page_loop_fulls:
  assumes "list_all (full_page per_page) fulls" "serves server req page fulls"
  shows "\<exists>s'. page_loop server req per_page c page items s =
            page_loop server req per_page c (page + int (length fulls)) (items @ concat fulls) s' \<and>
          requests (trace s') = requests (trace s) @ page_requests req page (length fulls)"
  using assms
proof (induction fulls arbitrary: page items s)
  case Nil
  show ?case by (intro exI [of _ s]) simp
next
  case (Cons p ps)
  from Cons.prems(2) obtain resp where resp: "server (req page) = Some resp"
      "\<not> raise_for_status (status_code resp)" "body resp = Some p"
    and rest: "serves server req (page + 1) ps"
    by (auto split: option.splits)
  from Cons.prems(1) have full: "full_page per_page p" and fulls: "list_all (full_page per_page) ps"
    by simp_all
  from page_loop_full [where server=server and req=req and page=page and c=c and items=items
      and s=s, OF resp full] obtain s1 where
    s1: "page_loop server req per_page c page items s =
           page_loop server req per_page c (page + 1) (items @ p) s1"
       "requests (trace s1) = requests (trace s) @ [req page]" by blast
  from Cons.IH [OF fulls rest, of "items @ p" s1] obtain s' where
    s': "page_loop server req per_page c (page + 1) (items @ p) s1 =
           page_loop server req per_page c (page + 1 + int (length ps)) ((items @ p) @ concat ps) s'"
       "requests (trace s') = requests (trace s1) @ page_requests req (page + 1) (length ps)"
    by blast
  have "page + 1 + int (length ps) = page + int (length (p # ps))" by simp
  with s1 s' show ?case by (intro exI [of _ s']) (simp add: add.assoc)
qed

lemma serves_append:
  "serves server req page (xs @ ys) =
     (serves server req page xs \<and> serves server req (page + int (length xs)) ys)"
  by (induction xs arbitrary: page) (auto simp: add.assoc)

lemma page_loop_walk:
  assumes "walk_pages per_page pages" "serves server req 1 pages"
  shows "walked (page_loop server req per_page c 1 [] s) s req pages"
proof -
  let ?fulls = "butlast pages" and ?p = "last pages"
  from assms(1) have pages: "pages = ?fulls @ [?p]"
    and fulls: "list_all (full_page per_page) ?fulls" and final: "final_page per_page ?p"
    by (simp_all add: walk_pages_def)
  from assms(2) pages have sf: "serves server req 1 ?fulls"
    and sl: "serves server req (1 + int (length ?fulls)) [?p]"
    using serves_append [of server req 1 ?fulls "[?p]"] by simp_all
  from sl obtain resp where resp: "server (req (1 + int (length ?fulls))) = Some resp"
      "\<not> raise_for_status (status_code resp)" "body resp = Some ?p"
    by (auto split: option.splits)
  from page_loop_fulls [OF fulls sf, of c "[]" s] obtain s1 where
    s1: "page_loop server req per_page c 1 [] s =
           page_loop server req per_page c (1 + int (length ?fulls)) (concat ?fulls) s1"
        "requests (trace s1) = requests (trace s) @ page_requests req 1 (length ?fulls)"
    by auto
  from page_loop_final [where server=server and req=req and page="1 + int (length ?fulls)"
      and c=c and items="concat ?fulls" and s=s1, OF resp final] obtain s' where
    s': "page_loop server req per_page c (1 + int (length ?fulls)) (concat ?fulls) s1 =
           Some (Inr (concat ?fulls @ ?p), s')"
        "requests (trace s') = requests (trace s1) @ [req (1 + int (length ?fulls))]"
    by blast
  have cat: "concat pages = concat ?fulls @ ?p"
    using pages by (metis concat.simps(1) concat.simps(2) concat_append append_Nil2)
  have len: "length pages = Suc (length ?fulls)"
    using pages by (metis length_append_singleton)
  have reqs: "page_requests req 1 (length ?fulls) @ [req (1 + int (length ?fulls))] =
      map (\<lambda>k. req (int k)) [1..<Suc (length pages)]"
    unfolding len page_requests_from_1 [symmetric]
    by (simp add: page_requests_map)
  show ?thesis
    using s1 s' cat reqs by (simp add: walked_def)
qed

lemma length_page_of_size [simp]: "length (page_of_size n) = n"
  by (simp add: page_of_size_def)

lemma page_of_size_Nil [simp]: "page_of_size n = [] \<longleftrightarrow> n = 0"
  by (simp add: page_of_size_def)

lemma walk_pages_337: "walk_pages 100 pages_337"
  by (simp add: walk_pages_def pages_337_def full_page_def final_page_def)

lemma walk_pages_200: "walk_pages 100 pages_200"
  by (simp add: walk_pages_def pages_200_def full_page_def final_page_def)

lemma page_of_simps [simp]:
  "page_of (repositories_request owner per_page page) = page"
  "page_of (commits_request owner repo per_page page) = page"
  "page_of (pull_requests_request owner repo state page) = page"
  "page_of (issues_request owner repo state page) = page"
  by (simp_all add: page_of_def repositories_request_def commits_request_def
      pull_requests_request_def issues_request_def)

lemma serves_fake_337:
  assumes "\<And>page. page_of (req page) = page"
  shows "serves (fake_source pages_337) req 1 pages_337"
  by (simp add: assms fake_source_def ok_response_def raise_for_status_def pages_337_def)

lemma serves_fake_200:
  assumes "\<And>page. page_of (req page) = page"
  shows "serves (fake_source pages_200) req 1 pages_200"
  by (simp add: assms fake_source_def ok_response_def raise_for_status_def pages_200_def)

lemma walked_counts:
  assumes "walked result s req pages" "trace s = []"
  shows "case result of
           Some (Inr items, s') \<Rightarrow>
             length items = sum_list (map length pages) \<and>
             requests (trace s') = map (\<lambda>k. req (int k)) [1..<Suc (length pages)] \<and>
             length (requests (trace s')) = length pages
         | _ \<Rightarrow> False"
  using assms by (auto simp: walked_def length_concat split: option.splits sum.splits simp del: upt_Suc)

lemma page_loop_status:
  assumes "list_all (full_page per_page) fetched" "serves server req 1 fetched"
    and "server (req (1 + int (length fetched))) = Some resp"
    and "raise_for_status (status_code resp)"
  shows "\<exists>s'. page_loop server req per_page c 1 [] s =
           (if c \<and> status_code resp = 409 then Some (Inr (concat fetched), s')
            else Some (Inl (HTTPError (status_code resp)), s'))"
proof -
  from page_loop_fulls [OF assms(1,2), of c "[]" s] obtain s1 where
    s1: "page_loop server req per_page c 1 [] s =
           page_loop server req per_page c (1 + int (length fetched)) (concat fetched) s1"
    by auto
  from page_loop_http_error [where server=server and req=req
      and page="1 + int (length fetched)" and c=c and items="concat fetched" and s=s1
      and per_page=per_page, OF assms(3,4)]
  obtain s' where
    "page_loop server req per_page c (1 + int (length fetched)) (concat fetched) s1 =
       (if c \<and> status_code resp = 409 then Some (Inr (concat fetched), s')
        else Some (Inl (HTTPError (status_code resp)), s'))" by blast
  with s1 show ?thesis by (intro exI [of _ s']) simp
qed

lemma raise_409 [simp]: "raise_for_status 409"
  by (simp add: raise_for_status_def)

lemma raise_404 [simp]: "raise_for_status 404"
  by (simp add: raise_for_status_def)

lemma page_of_contributors_request [simp]: "page_of (contributors_request owner repo) = 0"
  by (simp add: page_of_def contributors_request_def)

section \<open>Properties of the store\<close>

text \<open>
  C10. Every store operation called with an empty list of records returns the empty
  list of keys and leaves the database as it was.
\<close>

theorem store_empty_no_write:
  "store_repositories str [] db = (Inr [], db) \<and>
   store_commits repository_id [] db = (Inr [], db) \<and>
   store_contributors repository_id [] db = (Inr [], db) \<and>
   store_pull_requests repository_id [] db = (Inr [], db) \<and>
   store_issues repository_id [] db = (Inr [], db) \<and>
   store_comments repository_id [] issue_id pull_request_id db = (Inr [], db)"
  by (simp add: store_repositories_def store_commits_def store_contributors_def
      store_pull_requests_def store_issues_def store_comments_def)

text \<open>
  C3. For every input list, \<open>store_issues\<close> behaves as if the records that carry the
  key \<open>pull_request\<close> were not in the list: they are neither stamped nor written, and
  the returned list holds the \<open>number\<close> of exactly the other records, in order: a
  marked record is not counted and every returned number is the number of an unmarked
  record.
\<close>

theorem store_issues_excludes_pull_requests:
  "store_issues repository_id recs db =
     store_issues repository_id
       (filter (\<lambda>(now, issue). issue ''pull_request'' = None) recs) db \<and>
   (\<forall>ks db'. store_issues repository_id recs db = (Inr ks, db') \<longrightarrow>
      map Some ks = map (\<lambda>(now, issue). issue ''number'')
        (filter (\<lambda>(now, issue). issue ''pull_request'' = None) recs) \<and>
      length ks = length (filter (\<lambda>(now, issue). issue ''pull_request'' = None) recs) \<and>
      (\<forall>n \<in> set ks. \<exists>(now, issue) \<in> set recs.
         issue ''pull_request'' = None \<and> issue ''number'' = Some n))"
proof (intro conjI allI impI)
  let ?keep = "filter (\<lambda>(now, issue). issue ''pull_request'' = None) recs"
  show "store_issues repository_id recs db = store_issues repository_id ?keep db"
  proof (cases "?keep = []")
    case True
    then have "store_issues_loop repository_id recs (issues db) [] = (Inr [], issues db)"
      using store_issues_loop_filter [of repository_id recs "issues db" "[]"] by simp
    with True show ?thesis by (simp add: store_issues_def)
  next
    case False
    then have "recs \<noteq> []" by auto
    with False show ?thesis
      by (simp add: store_issues_def store_issues_loop_filter)
  qed
  fix ks db'
  assume run: "store_issues repository_id recs db = (Inr ks, db')"
  then show keys: "map Some ks = map (\<lambda>(now, issue). issue ''number'') ?keep"
    using store_issues_loop_keys [of repository_id recs "issues db" "[]" ks]
    by (auto simp: store_issues_def split: if_splits prod.splits)
  from keys have "length (map Some ks) = length (map (\<lambda>(now, issue). issue ''number'') ?keep)"
    by simp
  then show "length ks = length ?keep" by simp
  show "\<forall>n \<in> set ks. \<exists>(now, issue) \<in> set recs.
      issue ''pull_request'' = None \<and> issue ''number'' = Some n"
  proof
    fix n assume "n \<in> set ks"
    then have "Some n \<in> set (map Some ks)" by simp
    with keys have "Some n \<in> set (map (\<lambda>(now, issue). issue ''number'') ?keep)" by simp
    then show "\<exists>(now, issue) \<in> set recs.
        issue ''pull_request'' = None \<and> issue ''number'' = Some n"
      by auto
  qed
qed

theorem store_issues_excludes_pull_requests_witness:
  "store_issues (JInt 7) sample_issues empty_db
   = (Inr [JInt 6],
      empty_db\<lparr>issues := [[''id'' \<mapsto> JInt 2, ''number'' \<mapsto> JInt 6,
         ''collected_at'' \<mapsto> JTime 11000, ''repository_id'' \<mapsto> JInt 7]]\<rparr>) \<and>
   map Some [JInt 6] = map (\<lambda>(now, issue). issue ''number'')
     (filter (\<lambda>(now, issue). issue ''pull_request'' = None) sample_issues) \<and>
   length [JInt 6] =
     length (filter (\<lambda>(now, issue). issue ''pull_request'' = None) sample_issues)"
  using store_issues_excludes_pull_requests [of "JInt 7" sample_issues empty_db]
    sample_issues_stored
  by blast

text \<open>
  C1, as the code has it. For every store operation, every database and every list of
  records whose key fields (\<open>id\<close>; \<open>sha\<close> and the \<open>repository_id\<close> passed in;
  \<open>login\<close> and the \<open>repository_id\<close> passed in) are plain, that is neither arrays nor
  embedded documents: a second call with the same records (read at any clock readings)
  returns the same result and leaves the same documents, in number and in content apart
  from \<open>collected_at\<close>, as the first call alone.
\<close>

theorem upsert_idempotent:
  assumes "map snd recs2 = map snd recs1"
  shows "(plain_field ''id'' recs1 \<longrightarrow>
            resync_unchanged (store_repositories str) recs1 recs2 db) \<and>
         (plain_field ''sha'' recs1 \<and> plain repository_id \<longrightarrow>
            resync_unchanged (store_commits repository_id) recs1 recs2 db) \<and>
         (plain_field ''login'' recs1 \<and> plain repository_id \<longrightarrow>
            resync_unchanged (store_contributors repository_id) recs1 recs2 db) \<and>
         (plain_field ''id'' recs1 \<longrightarrow>
            resync_unchanged (store_pull_requests repository_id) recs1 recs2 db \<and>
            resync_unchanged (store_issues repository_id) recs1 recs2 db \<and>
            resync_unchanged
              (\<lambda>recs. store_comments repository_id recs issue_id pull_request_id)
              recs1 recs2 db)"
  using assms
  by (intro conjI impI resync_repositories resync_commits resync_contributors
      resync_pull_requests resync_issues resync_comments) simp_all

theorem upsert_idempotent_witness:
  "map snd sample_second = map snd sample_first \<and>
   plain_field ''id'' sample_first \<and> plain_field ''sha'' sample_first \<and>
   plain_field ''login'' sample_first \<and> plain (JInt 7) \<and>
   resync_unchanged (store_repositories (\<lambda>v. ''1'')) sample_first sample_second empty_db \<and>
   resync_unchanged (store_commits (JInt 7)) sample_first sample_second empty_db \<and>
   resync_unchanged (store_contributors (JInt 7)) sample_first sample_second empty_db \<and>
   resync_unchanged (store_pull_requests (JInt 7)) sample_first sample_second empty_db \<and>
   resync_unchanged (store_issues (JInt 7)) sample_first sample_second empty_db \<and>
   resync_unchanged (\<lambda>recs. store_comments (JInt 7) recs (JInt 5) JNull)
     sample_first sample_second empty_db \<and>
   store_commits (JInt 7) sample_first empty_db =
     (Inr [JStr ''a'', JStr ''a''],
      empty_db\<lparr>commits :=
        [[''id'' \<mapsto> JInt 1, ''sha'' \<mapsto> JStr ''a'', ''login'' \<mapsto> JStr ''u'',
          ''number'' \<mapsto> JInt 5, ''title'' \<mapsto> JStr ''y'',
          ''collected_at'' \<mapsto> JTime 11000, ''repository_id'' \<mapsto> JInt 7]]\<rparr>)"
proof -
  have same: "map snd sample_second = map snd sample_first"
    by (simp add: sample_first_def sample_second_def)
  have plain: "plain_field ''id'' sample_first" "plain_field ''sha'' sample_first"
    "plain_field ''login'' sample_first"
    by (simp_all add: plain_field_def plain_at_def sample_first_def)
  from upsert_idempotent [OF same, of "\<lambda>v. ''1''" empty_db "JInt 7" "JInt 5" JNull]
    same plain sample_commits_once
  show ?thesis by simp
qed

text \<open>
  As the specification states it, for every list of records, the property fails. The
  filter \<open>{'id': 1}\<close> selects a stored document whose \<open>id\<close> is an array that holds 1.
  Of two repositories with \<open>id\<close> \<open>[1, 2]\<close> and \<open>1\<close> the first call leaves one
  document (the second record overwrites the first) and the second call leaves two.
\<close>

theorem array_id_counterexample:
  "length (repositories (snd (store_repositories (\<lambda>v. ''1'') array_id_records empty_db))) = 1 \<and>
   length (repositories (snd (store_repositories (\<lambda>v. ''1'') array_id_records
      (snd (store_repositories (\<lambda>v. ''1'') array_id_records empty_db))))) = 2 \<and>
   \<not> resync_unchanged (store_repositories (\<lambda>v. ''1'')) array_id_records array_id_records
       empty_db"
proof -
  let ?db1 = "snd (store_repositories (\<lambda>v. ''1'') array_id_records empty_db)"
  let ?db2 = "snd (store_repositories (\<lambda>v. ''1'') array_id_records ?db1)"
  have 1: "length (repositories ?db1) = 1" by (simp add: array_id_once)
  have 2: "length (repositories ?db2) = 2" by (simp add: array_id_twice)
  have "content ?db2 \<noteq> content ?db1"
  proof
    assume "content ?db2 = content ?db1"
    then have "repositories (content ?db2) = repositories (content ?db1)" by simp
    then have "map strip_collected_at (repositories ?db2) =
        map strip_collected_at (repositories ?db1)"
      by (simp add: content_def)
    then have "length (repositories ?db2) = length (repositories ?db1)"
      by (rule map_eq_imp_length_eq)
    with 1 2 show False by simp
  qed
  then have "\<not> resync_unchanged (store_repositories (\<lambda>v. ''1'')) array_id_records
      array_id_records empty_db"
    by (simp add: resync_unchanged_def split_beta)
  with 1 2 show ?thesis by simp
qed



text \<open>
  C6, as the code has it. Every document that \<open>store_commits\<close>, \<open>store_contributors\<close>,
  \<open>store_pull_requests\<close>, \<open>store_issues\<close> or \<open>store_comments\<close> inserts or changes
  carries the \<open>repository_id\<close> passed in, as the store encodes it. A comment written by
  \<open>store_comments\<close> carries the \<open>issue_id\<close> passed in when that is truthy, and the
  \<open>pull_request_id\<close> passed in when that is truthy. It lacks \<open>pull_request_id\<close> when
  none is passed, the \<open>id\<close> of the comments are plain, and neither the payload has one
  nor a stored comment that the filter on \<open>id\<close> selects, and likewise for
  \<open>issue_id\<close>: so an issue comment stored as \<open>collect_all_data\<close> stores it has the
  \<open>issue_id\<close> passed in and no \<open>pull_request_id\<close>.
\<close>

theorem foreign_keys_threaded:
  "carry ''repository_id'' (to_bson repository_id) (commits db)
     (commits (snd (store_commits repository_id recs db))) \<and>
   carry ''repository_id'' (to_bson repository_id) (contributors db)
     (contributors (snd (store_contributors repository_id recs db))) \<and>
   carry ''repository_id'' (to_bson repository_id) (pull_requests db)
     (pull_requests (snd (store_pull_requests repository_id recs db))) \<and>
   carry ''repository_id'' (to_bson repository_id) (issues db)
     (issues (snd (store_issues repository_id recs db))) \<and>
   carry ''repository_id'' (to_bson repository_id) (comments db)
     (comments (snd (store_comments repository_id recs issue_id pull_request_id db))) \<and>
   (truthy issue_id \<longrightarrow>
      carry ''issue_id'' (to_bson issue_id) (comments db)
        (comments (snd (store_comments repository_id recs issue_id pull_request_id db)))) \<and>
   (truthy pull_request_id \<longrightarrow>
      carry ''pull_request_id'' (to_bson pull_request_id) (comments db)
        (comments (snd (store_comments repository_id recs issue_id pull_request_id db)))) \<and>
   (\<not> truthy pull_request_id \<and> plain_field ''id'' recs \<and>
    fresh ''pull_request_id'' recs (comments db) \<longrightarrow>
      lacks ''pull_request_id'' (comments db)
        (comments (snd (store_comments repository_id recs issue_id pull_request_id db)))) \<and>
   (\<not> truthy issue_id \<and> plain_field ''id'' recs \<and>
    fresh ''issue_id'' recs (comments db) \<longrightarrow>
      lacks ''issue_id'' (comments db)
        (comments (snd (store_comments repository_id recs issue_id pull_request_id db))))"
  unfolding commits_after contributors_after pull_requests_after issues_after comments_after
proof (intro conjI impI)
  show "carry ''repository_id'' (to_bson repository_id) (commits db)
     (apply_writes (writes_of (map (commit_step repository_id) recs)) (commits db))"
    by (rule carry_writes) (rule commit_step_doc [THEN conjunct2])
  show "carry ''repository_id'' (to_bson repository_id) (contributors db)
     (apply_writes (writes_of (map (contributor_step repository_id) recs)) (contributors db))"
    by (rule carry_writes) (rule contributor_step_doc [THEN conjunct2])
  show "carry ''repository_id'' (to_bson repository_id) (pull_requests db)
     (apply_writes (writes_of (map (pull_request_step repository_id) recs)) (pull_requests db))"
    by (rule carry_writes) (rule pull_request_step_doc [THEN conjunct2])
  show "carry ''repository_id'' (to_bson repository_id) (issues db)
     (apply_writes (writes_of (map (issue_step repository_id) recs)) (issues db))"
    by (rule carry_writes) (rule issue_step_doc [THEN conjunct2])
  show "carry ''repository_id'' (to_bson repository_id) (comments db)
     (apply_writes (writes_of (map (comment_step repository_id issue_id pull_request_id) recs))
        (comments db))"
    by (rule carry_comment_field) (simp add: comment_step_doc)
  show "carry ''issue_id'' (to_bson issue_id) (comments db)
     (apply_writes (writes_of (map (comment_step repository_id issue_id pull_request_id) recs))
        (comments db))" if "truthy issue_id"
    by (rule carry_comment_field) (simp add: comment_step_doc that)
  show "carry ''pull_request_id'' (to_bson pull_request_id) (comments db)
     (apply_writes (writes_of (map (comment_step repository_id issue_id pull_request_id) recs))
        (comments db))" if "truthy pull_request_id"
    by (rule carry_comment_field) (simp add: comment_step_doc that)
  show "lacks ''pull_request_id'' (comments db)
     (apply_writes (writes_of (map (comment_step repository_id issue_id pull_request_id) recs))
        (comments db))"
    if "\<not> truthy pull_request_id \<and> plain_field ''id'' recs \<and>
      fresh ''pull_request_id'' recs (comments db)"
    using that by (intro lacks_pull_request_id) simp_all
  show "lacks ''issue_id'' (comments db)
     (apply_writes (writes_of (map (comment_step repository_id issue_id pull_request_id) recs))
        (comments db))"
    if "\<not> truthy issue_id \<and> plain_field ''id'' recs \<and>
      fresh ''issue_id'' recs (comments db)"
    using that by (intro lacks_issue_id) simp_all
qed

theorem foreign_keys_threaded_witness:
  "truthy (JInt 5) \<and> \<not> truthy JNull \<and> plain_field ''id'' [(10500, issue_comment)] \<and>
   fresh ''pull_request_id'' [(10500, issue_comment)] (comments empty_db) \<and>
   map (\<lambda>d. (d ''repository_id'', d ''issue_id'', d ''pull_request_id''))
     (comments as_issue_comment) = [(Some (JInt 7), Some (JInt 5), None)] \<and>
   carry ''repository_id'' (JInt 7) (comments empty_db) (comments as_issue_comment) \<and>
   carry ''issue_id'' (JInt 5) (comments empty_db) (comments as_issue_comment) \<and>
   lacks ''pull_request_id'' (comments empty_db) (comments as_issue_comment) \<and>
   truthy (JInt 9) \<and> fresh ''issue_id'' [(10500, issue_comment)] (comments empty_db) \<and>
   map (\<lambda>d. (d ''repository_id'', d ''issue_id'', d ''pull_request_id''))
     (comments as_review_comment) = [(Some (JInt 7), None, Some (JInt 9))] \<and>
   carry ''pull_request_id'' (JInt 9) (comments empty_db) (comments as_review_comment) \<and>
   lacks ''issue_id'' (comments empty_db) (comments as_review_comment) \<and>
   plain_field ''id'' [(20500, review_comment)] \<and>
   fresh ''issue_id'' [(20500, review_comment)] (comments as_issue_comment) \<and>
   map (\<lambda>d. (d ''id'', d ''issue_id'', d ''pull_request_id'')) (comments both_comments) =
     [(Some (JInt 1), Some (JInt 5), None), (Some (JInt 2), None, Some (JInt 9))] \<and>
   carry ''pull_request_id'' (JInt 9) (comments as_issue_comment) (comments both_comments) \<and>
   lacks ''issue_id'' (comments as_issue_comment) (comments both_comments)"
proof -
  from foreign_keys_threaded [of "JInt 7" empty_db "[(10500, issue_comment)]" "JInt 5" JNull]
    fresh_issue_comment plain_issue_comment
  have first: "carry ''repository_id'' (JInt 7) (comments empty_db) (comments as_issue_comment) \<and>
      carry ''issue_id'' (JInt 5) (comments empty_db) (comments as_issue_comment) \<and>
      lacks ''pull_request_id'' (comments empty_db) (comments as_issue_comment)"
    by (simp add: as_issue_comment_def [symmetric])
  from foreign_keys_threaded [of "JInt 7" empty_db "[(10500, issue_comment)]" JNull "JInt 9"]
    fresh_issue_comment plain_issue_comment
  have second: "carry ''pull_request_id'' (JInt 9) (comments empty_db)
        (comments as_review_comment) \<and>
      lacks ''issue_id'' (comments empty_db) (comments as_review_comment)"
    by (simp add: as_review_comment_def [symmetric])
  from foreign_keys_threaded [of "JInt 7" as_issue_comment "[(20500, review_comment)]" JNull
      "JInt 9"] fresh_review_comment plain_review_comment
  have third: "carry ''pull_request_id'' (JInt 9) (comments as_issue_comment)
        (comments both_comments) \<and>
      lacks ''issue_id'' (comments as_issue_comment) (comments both_comments)"
    by (simp add: both_comments_def [symmetric])
  have fields: "map (\<lambda>d. (d ''repository_id'', d ''issue_id'', d ''pull_request_id''))
        (comments as_issue_comment) = [(Some (JInt 7), Some (JInt 5), None)]"
    "map (\<lambda>d. (d ''repository_id'', d ''issue_id'', d ''pull_request_id''))
        (comments as_review_comment) = [(Some (JInt 7), None, Some (JInt 9))]"
    "map (\<lambda>d. (d ''id'', d ''issue_id'', d ''pull_request_id'')) (comments both_comments) =
        [(Some (JInt 1), Some (JInt 5), None), (Some (JInt 2), None, Some (JInt 9))]"
    by (simp_all add: as_issue_comment_comments as_review_comment_comments
        both_comments_comments)
  from first second third fields fresh_issue_comment plain_issue_comment
    fresh_review_comment plain_review_comment
  show ?thesis by simp
qed

text \<open>
  As the specification states it, the property fails: \<open>store_comments\<close> called with
  neither id (the defaults) stores a comment with neither field, called with both it
  stores both, and a comment stored for an issue and stored again for a pull request
  holds both.
\<close>

theorem comment_keys_counterexample:
  "map (\<lambda>d. (d ''issue_id'', d ''pull_request_id''))
     (comments (snd (store_comments (JInt 7) [(10500, issue_comment)] JNull JNull empty_db))) =
     [(None, None)] \<and>
   map (\<lambda>d. (d ''issue_id'', d ''pull_request_id''))
     (comments (snd (store_comments (JInt 7) [(10500, issue_comment)] (JInt 5) (JInt 9)
        empty_db))) =
     [(Some (JInt 5), Some (JInt 9))] \<and>
   map (\<lambda>d. (d ''issue_id'', d ''pull_request_id''))
     (comments (snd (store_comments (JInt 7) [(20500, issue_comment)] JNull (JInt 9)
        as_issue_comment))) =
     [(Some (JInt 5), Some (JInt 9))]"
  by (simp add: store_comments_def issue_comment_def add_timestamp_def empty_db_def
      as_issue_comment_comments matches_def update_one_def encodable_filter_def
      encode_filter_def millis_def)

section \<open>Properties of the client\<close>

text \<open>
  C2. For each of the four paginated walks: when the API serves pages of which all but
  the last are full (not empty and not shorter than the page size) and the last is final
  (empty or shorter than the page size), the walk returns, its result is all pages in
  order, and the requests it sent are those for the pages 1, 2, ... up to the final page,
  one each. So a page is final exactly when it is empty or short. Pages of sizes
  100, 100, 100, 37 give 337 items with 4 requests, pages of sizes 100, 100, 0 give 200
  items with 3 requests.
\<close>

theorem pagination_walk:
  "(walk_pages per_page pages \<and> serves server (repositories_request owner per_page) 1 pages \<longrightarrow>
      walked (get_repositories server owner per_page s) s
        (repositories_request owner per_page) pages) \<and>
   (walk_pages per_page pages \<and> serves server (commits_request owner repo per_page) 1 pages \<longrightarrow>
      walked (get_commits server owner repo per_page s) s
        (commits_request owner repo per_page) pages) \<and>
   (walk_pages 100 pages \<and> serves server (pull_requests_request owner repo state) 1 pages \<longrightarrow>
      walked (get_pull_requests server owner repo state s) s
        (pull_requests_request owner repo state) pages) \<and>
   (walk_pages 100 pages \<and> serves server (issues_request owner repo state) 1 pages \<longrightarrow>
      walked (get_issues server owner repo state s) s
        (issues_request owner repo state) pages)"
  unfolding get_repositories_def get_commits_def get_pull_requests_def get_issues_def
  by (intro conjI impI page_loop_walk) simp_all

theorem pagination_walk_witness:
  "(case get_repositories (fake_source pages_337) ''letta'' 100 (init_client 5000 0) of
      Some (Inr items, s') \<Rightarrow> length items = 337 \<and> length (requests (trace s')) = 4
    | _ \<Rightarrow> False) \<and>
   (case get_commits (fake_source pages_337) ''letta'' ''repo'' 100 (init_client 5000 0) of
      Some (Inr items, s') \<Rightarrow> length items = 337 \<and> length (requests (trace s')) = 4
    | _ \<Rightarrow> False) \<and>
   (case get_pull_requests (fake_source pages_200) ''letta'' ''repo'' ''all''
           (init_client 5000 0) of
      Some (Inr items, s') \<Rightarrow> length items = 200 \<and> length (requests (trace s')) = 3
    | _ \<Rightarrow> False) \<and>
   (case get_issues (fake_source pages_200) ''letta'' ''repo'' ''all'' (init_client 5000 0) of
      Some (Inr items, s') \<Rightarrow>
        length items = 200 \<and>
        requests (trace s') =
          [issues_request ''letta'' ''repo'' ''all'' 1, issues_request ''letta'' ''repo'' ''all'' 2,
           issues_request ''letta'' ''repo'' ''all'' 3]
    | _ \<Rightarrow> False)"
proof -
  let ?s = "init_client 5000 0"
  have t: "trace ?s = []" by (simp add: init_client_def)
  note a = pagination_walk [of 100 pages_337 "fake_source pages_337" "''letta''" ?s "''repo''"
      "''all''"]
  note b = pagination_walk [of 100 pages_200 "fake_source pages_200" "''letta''" ?s "''repo''"
      "''all''"]
  have 1: "walked (get_repositories (fake_source pages_337) ''letta'' 100 ?s) ?s
      (repositories_request ''letta'' 100) pages_337"
    using a walk_pages_337 serves_fake_337 [of "repositories_request ''letta'' 100"] by simp
  have 2: "walked (get_commits (fake_source pages_337) ''letta'' ''repo'' 100 ?s) ?s
      (commits_request ''letta'' ''repo'' 100) pages_337"
    using a walk_pages_337 serves_fake_337 [of "commits_request ''letta'' ''repo'' 100"] by simp
  have 3: "walked (get_pull_requests (fake_source pages_200) ''letta'' ''repo'' ''all'' ?s) ?s
      (pull_requests_request ''letta'' ''repo'' ''all'') pages_200"
    using b walk_pages_200 serves_fake_200 [of "pull_requests_request ''letta'' ''repo'' ''all''"]
    by simp
  have 4: "walked (get_issues (fake_source pages_200) ''letta'' ''repo'' ''all'' ?s) ?s
      (issues_request ''letta'' ''repo'' ''all'') pages_200"
    using b walk_pages_200 serves_fake_200 [of "issues_request ''letta'' ''repo'' ''all''"]
    by simp
  have n337: "sum_list (map length pages_337) = 337" "length pages_337 = 4"
    by (simp_all add: pages_337_def)
  have n200: "sum_list (map length pages_200) = 200" "length pages_200 = 3"
    by (simp_all add: pages_200_def)
  have up: "[1..<Suc 3] = [1, 2, 3]" by (simp add: upt_conv_Cons)
  show ?thesis
    using walked_counts [OF 1 t] walked_counts [OF 2 t] walked_counts [OF 3 t]
      walked_counts [OF 4 t]
    unfolding n337 n200 up
    by (auto split: option.splits sum.splits)
qed

text \<open>
  C5. Before the request is sent, \<open>_make_request\<close> sleeps for
  \<open>max(0, rate_limit_reset - now)\<close> seconds if \<open>rate_limit_remaining\<close> is at most 1 and
  \<open>rate_limit_reset\<close> is in the future, and does not sleep otherwise.
\<close>

theorem rate_limit_wait:
  "trace (snd (make_request server endpoint params s)) =
     trace s @
     (if rate_limit_remaining s \<le> 1 \<and> clock s < rate_limit_reset s
      then [Slept (max 0 (rate_limit_reset s - clock s))] else []) @
     [Requested \<lparr>req_endpoint = endpoint, req_params = params\<rparr>]"
  by (simp add: make_request_def Let_def trace_check_rate_limit split: option.splits)

theorem rate_limit_wait_witness:
  "trace (snd (make_request (fake_source []) ''/x'' []
      \<lparr>rate_limit_remaining = 1, rate_limit_reset = 130, clock = 100, trace = []\<rparr>)) =
     [Slept 30, Requested \<lparr>req_endpoint = ''/x'', req_params = []\<rparr>] \<and>
   trace (snd (make_request (fake_source []) ''/x'' []
      \<lparr>rate_limit_remaining = 2, rate_limit_reset = 130, clock = 100, trace = []\<rparr>)) =
     [Requested \<lparr>req_endpoint = ''/x'', req_params = []\<rparr>] \<and>
   trace (snd (make_request (fake_source []) ''/x'' []
      \<lparr>rate_limit_remaining = 0, rate_limit_reset = 90, clock = 100, trace = []\<rparr>)) =
     [Requested \<lparr>req_endpoint = ''/x'', req_params = []\<rparr>]"
  using rate_limit_wait [of "fake_source []" "''/x''" "[]"
      "\<lparr>rate_limit_remaining = 1, rate_limit_reset = 130, clock = 100, trace = []\<rparr>"]
    rate_limit_wait [of "fake_source []" "''/x''" "[]"
      "\<lparr>rate_limit_remaining = 2, rate_limit_reset = 130, clock = 100, trace = []\<rparr>"]
    rate_limit_wait [of "fake_source []" "''/x''" "[]"
      "\<lparr>rate_limit_remaining = 0, rate_limit_reset = 90, clock = 100, trace = []\<rparr>"]
  by simp

text \<open>
  C7. After a call that got a response, the two rate-limit fields hold what the response's
  headers say (0 and one hour from now where a header is absent), whatever they held
  before; this also when the status is an error status, the error being raised after the
  update.
\<close>

theorem rate_limit_overwritten:
  assumes "server \<lparr>req_endpoint = endpoint, req_params = params\<rparr> = Some response"
    and "make_request server endpoint params s = (result, s')"
  shows "rate_limit_remaining s' =
           (case ratelimit_remaining response of Some n \<Rightarrow> n | None \<Rightarrow> 0) \<and>
         rate_limit_reset s' =
           (case ratelimit_reset response of
              Some t \<Rightarrow> real_of_int t
            | None \<Rightarrow> real_of_int (py_int (clock s' + 3600))) \<and>
         (raise_for_status (status_code response) \<longrightarrow>
            result = Inl (HTTPError (status_code response)))"
  using assms by (auto simp: make_request_def Let_def split: option.splits if_splits)

theorem rate_limit_overwritten_witness:
  "make_request (fake_source_then [] 500) ''/x'' []
      \<lparr>rate_limit_remaining = 17, rate_limit_reset = 130, clock = 100, trace = []\<rparr> =
     (Inl (HTTPError 500),
      \<lparr>rate_limit_remaining = 4999, rate_limit_reset = 0, clock = 100,
       trace = [Requested \<lparr>req_endpoint = ''/x'', req_params = []\<rparr>]\<rparr>) \<and>
   rate_limit_remaining (snd (make_request (fake_source_then [] 500) ''/x'' []
      \<lparr>rate_limit_remaining = 17, rate_limit_reset = 130, clock = 100, trace = []\<rparr>)) = 4999"
proof -
  let ?s = "\<lparr>rate_limit_remaining = 17, rate_limit_reset = 130, clock = 100, trace = []\<rparr>"
  let ?s' = "\<lparr>rate_limit_remaining = 4999, rate_limit_reset = 0, clock = 100,
       trace = [Requested \<lparr>req_endpoint = ''/x'', req_params = []\<rparr>]\<rparr>"
  have srv: "fake_source_then [] 500 \<lparr>req_endpoint = ''/x'', req_params = []\<rparr> =
      Some (status_response 500 [])"
    by (simp add: fake_source_then_def page_of_def)
  have run: "make_request (fake_source_then [] 500) ''/x'' [] ?s = (Inl (HTTPError 500), ?s')"
    by (simp add: make_request_def srv status_response_def check_rate_limit_def
        raise_for_status_def)
  from rate_limit_overwritten [OF srv run] run show ?thesis
    by (simp add: status_response_def)
qed

text \<open>
  C9. In a commit walk a 409 on any page, after any number of full pages, ends the walk
  without an error: \<open>get_commits\<close> returns the commits of the pages fetched before,
  a list that is not empty when a page was fetched.
\<close>

theorem commits_409_keeps_fetched_pages:
  assumes "list_all (full_page per_page) fetched"
    and "serves server (commits_request owner repo per_page) 1 fetched"
    and "server (commits_request owner repo per_page (1 + int (length fetched))) = Some response"
    and "status_code response = 409"
  shows "(\<exists>s'. get_commits server owner repo per_page s = Some (Inr (concat fetched), s')) \<and>
         (fetched \<noteq> [] \<longrightarrow> concat fetched \<noteq> [])"
proof
  show "\<exists>s'. get_commits server owner repo per_page s = Some (Inr (concat fetched), s')"
    using page_loop_status [OF assms(1,2,3), of True s] assms(4)
    by (simp add: get_commits_def)
  show "fetched \<noteq> [] \<longrightarrow> concat fetched \<noteq> []"
    using assms(1) by (cases fetched) (simp_all add: full_page_def)
qed

theorem commits_409_keeps_fetched_pages_witness:
  "list_all (full_page 2) [two_commits] \<and>
   serves (fake_source_then [two_commits] 409) (commits_request ''letta'' ''repo'' 2) 1
     [two_commits] \<and>
   fake_source_then [two_commits] 409 (commits_request ''letta'' ''repo'' 2 2) =
     Some (status_response 409 []) \<and>
   (\<exists>s'. get_commits (fake_source_then [two_commits] 409) ''letta'' ''repo'' 2
      (init_client 5000 0) = Some (Inr two_commits, s')) \<and>
   two_commits \<noteq> []"
proof -
  have full: "list_all (full_page 2) [two_commits]"
    by (simp add: full_page_def two_commits_def)
  have srv: "serves (fake_source_then [two_commits] 409) (commits_request ''letta'' ''repo'' 2) 1
     [two_commits]"
    by (simp add: fake_source_then_def ok_response_def raise_for_status_def)
  have last: "fake_source_then [two_commits] 409
      (commits_request ''letta'' ''repo'' 2 (1 + int (length [two_commits]))) =
     Some (status_response 409 [])"
    by (simp add: fake_source_then_def)
  have st: "status_code (status_response 409 []) = 409"
    by (simp add: status_response_def)
  from commits_409_keeps_fetched_pages [OF full srv last st, of "init_client 5000 0"]
    full srv last
  show ?thesis by (simp add: two_commits_def)
qed

text \<open>
  C4, as the code has it. A 409 on the first page makes \<open>get_commits\<close> return the empty
  list, a 404 makes \<open>get_contributors\<close> return the empty list, and every other status
  for which \<open>raise_for_status\<close> raises (400 to 599) propagates as \<open>HTTPError\<close> from the
  commit walk, on any page, and from the contributor fetch.
\<close>

theorem empty_result_statuses:
  "(server (commits_request owner repo per_page 1) = Some response \<and>
    status_code response = 409 \<longrightarrow>
      (\<exists>s'. get_commits server owner repo per_page s = Some (Inr [], s'))) \<and>
   (server (contributors_request owner repo) = Some response \<and>
    status_code response = 404 \<longrightarrow>
      fst (get_contributors server owner repo s) = Inr []) \<and>
   (list_all (full_page per_page) fetched \<and>
    serves server (commits_request owner repo per_page) 1 fetched \<and>
    server (commits_request owner repo per_page (1 + int (length fetched))) = Some response \<and>
    raise_for_status (status_code response) \<and> status_code response \<noteq> 409 \<longrightarrow>
      (\<exists>s'. get_commits server owner repo per_page s =
         Some (Inl (HTTPError (status_code response)), s'))) \<and>
   (server (contributors_request owner repo) = Some response \<and>
    raise_for_status (status_code response) \<and> status_code response \<noteq> 404 \<longrightarrow>
      fst (get_contributors server owner repo s) = Inl (HTTPError (status_code response)))"
proof (intro conjI impI)
  assume "server (commits_request owner repo per_page 1) = Some response \<and>
    status_code response = 409"
  then show "\<exists>s'. get_commits server owner repo per_page s = Some (Inr [], s')"
    using page_loop_status [of per_page "[]" server "commits_request owner repo per_page"
        response True s]
    by (simp add: get_commits_def)
next
  assume "server (contributors_request owner repo) = Some response \<and>
    status_code response = 404"
  then show "fst (get_contributors server owner repo s) = Inr []"
    by (simp add: get_contributors_def contributors_request_def make_request_def Let_def)
next
  assume a: "list_all (full_page per_page) fetched \<and>
    serves server (commits_request owner repo per_page) 1 fetched \<and>
    server (commits_request owner repo per_page (1 + int (length fetched))) = Some response \<and>
    raise_for_status (status_code response) \<and> status_code response \<noteq> 409"
  then show "\<exists>s'. get_commits server owner repo per_page s =
         Some (Inl (HTTPError (status_code response)), s')"
    using page_loop_status [of per_page fetched server "commits_request owner repo per_page"
        response True s]
    by (simp add: get_commits_def)
next
  assume "server (contributors_request owner repo) = Some response \<and>
    raise_for_status (status_code response) \<and> status_code response \<noteq> 404"
  then show "fst (get_contributors server owner repo s) =
      Inl (HTTPError (status_code response))"
    by (simp add: get_contributors_def contributors_request_def make_request_def Let_def)
qed

theorem empty_result_statuses_witness:
  "(\<exists>s'. get_commits (fake_source_then [] 409) ''letta'' ''repo'' 100 (init_client 5000 0) =
      Some (Inr [], s')) \<and>
   fst (get_contributors (fake_source_then [] 404) ''letta'' ''repo'' (init_client 5000 0)) =
     Inr [] \<and>
   (\<exists>s'. get_commits (fake_source_then [two_commits] 500) ''letta'' ''repo'' 2
      (init_client 5000 0) = Some (Inl (HTTPError 500), s')) \<and>
   fst (get_contributors (fake_source_then [] 500) ''letta'' ''repo'' (init_client 5000 0)) =
     Inl (HTTPError 500)"
proof -
  let ?s = "init_client 5000 0"
  have full: "list_all (full_page 2) [two_commits]"
    by (simp add: full_page_def two_commits_def)
  have srv: "serves (fake_source_then [two_commits] 500) (commits_request ''letta'' ''repo'' 2) 1
     [two_commits]"
    by (simp add: fake_source_then_def ok_response_def raise_for_status_def)
  have st: "status_code (status_response n []) = n" for n
    by (simp add: status_response_def)
  have r500: "raise_for_status 500" by (simp add: raise_for_status_def)
  have a: "\<exists>s'. get_commits (fake_source_then [] 409) ''letta'' ''repo'' 100 ?s = Some (Inr [], s')"
    using empty_result_statuses [of "fake_source_then [] 409" "''letta''" "''repo''" 100
        "status_response 409 []" ?s]
    by (simp add: fake_source_then_def st)
  have b: "fst (get_contributors (fake_source_then [] 404) ''letta'' ''repo'' ?s) = Inr []"
    using empty_result_statuses [of "fake_source_then [] 404" "''letta''" "''repo''" 100
        "status_response 404 []" ?s]
    by (simp add: fake_source_then_def st)
  have c: "\<exists>s'. get_commits (fake_source_then [two_commits] 500) ''letta'' ''repo'' 2 ?s =
      Some (Inl (HTTPError 500), s')"
    using empty_result_statuses [of "fake_source_then [two_commits] 500" "''letta''" "''repo''" 2
        "status_response 500 []" ?s "[two_commits]"] full srv r500
    by (simp add: fake_source_then_def st)
  have d: "fst (get_contributors (fake_source_then [] 500) ''letta'' ''repo'' ?s) =
      Inl (HTTPError 500)"
    using empty_result_statuses [of "fake_source_then [] 500" "''letta''" "''repo''" 100
        "status_response 500 []" ?s] r500
    by (simp add: fake_source_then_def st)
  from a b c d show ?thesis by blast
qed

text \<open>
  As the specification states it, the property fails for a status that is neither a success nor an error status for
  \<open>raise_for_status\<close>: a response with status 300 and a JSON list as body is returned as
  data by both functions.
\<close>

theorem non_2xx_status_counterexample:
  "fst (get_contributors multiple_choices_api ''letta'' ''repo'' (init_client 5000 0)) =
     Inr two_commits \<and>
   map_option fst
     (get_commits multiple_choices_api ''letta'' ''repo'' 100 (init_client 5000 0)) =
     Some (Inr two_commits)"
proof -
  let ?s = "init_client 5000 0"
  have "fst (get_contributors multiple_choices_api ''letta'' ''repo'' ?s) = Inr two_commits"
    by (simp add: get_contributors_def make_request_def multiple_choices_api_def
        status_response_def raise_for_status_def Let_def)
  moreover have "\<exists>s'. page_loop multiple_choices_api (commits_request ''letta'' ''repo'' 100) 100
      True 1 [] ?s = Some (Inr ([] @ two_commits), s')"
  proof -
    have "\<exists>s'. page_loop multiple_choices_api (commits_request ''letta'' ''repo'' 100) 100
        True 1 [] ?s = Some (Inr ([] @ two_commits), s') \<and>
        requests (trace s') = requests (trace ?s) @ [commits_request ''letta'' ''repo'' 100 1]"
      by (rule page_loop_final [where resp="status_response 300 two_commits"])
         (simp_all add: multiple_choices_api_def status_response_def raise_for_status_def
           final_page_def two_commits_def)
    then show ?thesis by blast
  qed
  ultimately show ?thesis by (auto simp: get_commits_def)
qed

end
